theory Spec2Isabelle
  imports Complex_Main "HOL-Library.Sublist"
begin

section \<open>The laser display of \<open>wand/gui.py\<close>: data model\<close>

text \<open>
  The theory embeds the update task \<open>LaserDisplay.loop\<close> and the callbacks it calls.
  Python's numbers (\<open>time.time()\<close>, poll times, timestamps, the reference frequency) are
  floats: their sums, differences, products and quotients are rounded. Every \<open>await\<close> is a point where the task is suspended and the rest
  of the program runs; what the rest of the program does there is given by a script, one
  entry per suspension.
\<close>

section \<open>Python floats\<close>

text \<open>
  A Python float is an IEEE binary64 value. The finite ones are carried by the reals they
  stand for; \<open>double\<close> says which reals those are. The two zeros are not told apart (they
  compare equal), and since timestamps, poll times and the clock are finite, no operation
  of the loop yields a NaN. The comparison is that of the floats.
\<close>

datatype pyfloat = Finite real | PInf | MInf

instantiation pyfloat :: "{zero, ord}"
begin

definition zero_pyfloat :: pyfloat where
  "zero_pyfloat = Finite 0"

fun less_eq_pyfloat :: "pyfloat \<Rightarrow> pyfloat \<Rightarrow> bool" where
  "less_eq_pyfloat (Finite a) (Finite b) = (a \<le> b)"
| "less_eq_pyfloat MInf y = True"
| "less_eq_pyfloat x PInf = True"
| "less_eq_pyfloat PInf y = False"
| "less_eq_pyfloat x MInf = False"

definition less_pyfloat :: "pyfloat \<Rightarrow> pyfloat \<Rightarrow> bool" where
  "less_pyfloat x y \<longleftrightarrow> x \<le> y \<and> \<not> y \<le> x"

instance ..

end

text \<open>
  Rounding of an exact result to the nearest float, ties to the even significand: the
  spacing of the floats around \<open>x\<close> is \<open>quantum x\<close> (that of the subnormal numbers below
  \<open>2^-1022\<close>), and a result that rounds to \<open>2^1024\<close> or beyond overflows to an infinity.
\<close>

definition pow2 :: "int \<Rightarrow> real" where
  "pow2 k = 2 powr of_int k"

definition double :: "real \<Rightarrow> bool" where
  "double x \<longleftrightarrow> (\<exists>m e. \<bar>m\<bar> < 2 ^ 53 \<and> - 1074 \<le> e \<and> e \<le> 971 \<and> x = of_int m * pow2 e)"

definition binade :: "real \<Rightarrow> int" where
  "binade x = max \<lfloor>log 2 \<bar>x\<bar>\<rfloor> (- 1022)"

definition quantum :: "real \<Rightarrow> real" where
  "quantum x = pow2 (binade x - 52)"

definition rne :: "real \<Rightarrow> int" where
  "rne y =
     (if frac y < 1 / 2 then \<lfloor>y\<rfloor>
      else if 1 / 2 < frac y then \<lfloor>y\<rfloor> + 1
      else if even \<lfloor>y\<rfloor> then \<lfloor>y\<rfloor> else \<lfloor>y\<rfloor> + 1)"

definition fl :: "real \<Rightarrow> real" where
  "fl x = of_int (rne (x / quantum x)) * quantum x"

definition round64 :: "real \<Rightarrow> pyfloat" where
  "round64 x =
     (if 2 ^ 1024 \<le> fl x then PInf
      else if fl x \<le> - (2 ^ 1024) then MInf
      else Finite (fl x))"

text \<open>\<open>a - b\<close> for a float \<open>a\<close> and a finite float \<open>b\<close>.\<close>

fun fsub :: "pyfloat \<Rightarrow> real \<Rightarrow> pyfloat" where
  "fsub (Finite a) b = round64 (a - b)"
| "fsub PInf b = PInf"
| "fsub MInf b = MInf"


lemma le_PInf [simp]: "x \<le> PInf"
  by (cases x) simp_all

lemma MInf_le [simp]: "MInf \<le> x"
  by (cases x) simp_all

lemma pow2_pos [simp]: "0 < pow2 k"
  by (simp add: pow2_def)

lemma pow2_nonneg [simp]: "0 \<le> pow2 k"
  by (simp add: pow2_def)

lemma pow2_ne0 [simp]: "pow2 k \<noteq> 0"
  by (simp add: pow2_def)

lemma pow2_not_neg [simp]: "\<not> pow2 k < 0"
  by (simp add: not_less)

lemma pow2_add: "pow2 (j + k) = pow2 j * pow2 k"
  by (simp add: pow2_def powr_add)

lemma pow2_mono: "j \<le> k \<Longrightarrow> pow2 j \<le> pow2 k"
  by (simp add: pow2_def)

lemma pow2_nat: "0 \<le> k \<Longrightarrow> pow2 k = of_int (2 ^ nat k)"
  by (simp add: pow2_def powr_real_of_int)

lemma pow2_0 [simp]: "pow2 0 = 1"
  by (simp add: pow2_def)

lemma rne_lower: "\<lfloor>y\<rfloor> \<le> rne y"
  by (simp add: rne_def)

lemma rne_upper: "rne y \<le> \<lfloor>y\<rfloor> + 1"
  by (simp add: rne_def)

lemma rne_of_int [simp]: "rne (of_int k) = k"
  by (simp add: rne_def)

lemma rne_0 [simp]: "rne 0 = 0"
  using rne_of_int [of 0] by simp

lemma rne_ge: "of_int n \<le> y \<Longrightarrow> n \<le> rne y"
proof -
  assume "of_int n \<le> y"
  then have "n \<le> \<lfloor>y\<rfloor>" by (simp add: le_floor_iff)
  with rne_lower [of y] show ?thesis by linarith
qed

lemma rne_le: "y \<le> of_int n \<Longrightarrow> rne y \<le> n"
proof (cases "y = of_int n")
  case True
  then show ?thesis by simp
next
  case False
  assume "y \<le> of_int n"
  with False have "y < of_int n" by simp
  then have "\<lfloor>y\<rfloor> < n" by (simp add: floor_less_iff)
  with rne_upper [of y] show ?thesis by linarith
qed

lemma rne_mono: "x \<le> y \<Longrightarrow> rne x \<le> rne y"
proof -
  assume xy: "x \<le> y"
  then have f: "\<lfloor>x\<rfloor> \<le> \<lfloor>y\<rfloor>" by (rule floor_mono)
  show ?thesis
  proof (cases "\<lfloor>x\<rfloor> = \<lfloor>y\<rfloor>")
    case False
    with f have "\<lfloor>x\<rfloor> + 1 \<le> \<lfloor>y\<rfloor>" by simp
    with rne_upper [of x] rne_lower [of y] show ?thesis by linarith
  next
    case True
    with xy have "frac x \<le> frac y" by (simp add: frac_def)
    with True show ?thesis by (auto simp: rne_def)
  qed
qed

lemma rne_minus: "rne (- y) = - rne y"
proof (cases "y \<in> \<int>")
  case True
  then obtain k where "y = of_int k" by (auto elim: Ints_cases)
  then have "rne (- y) = rne (of_int (- k))" by simp
  also have "\<dots> = - k" by (rule rne_of_int)
  finally show ?thesis using \<open>y = of_int k\<close> by simp
next
  case False
  then have "y \<noteq> of_int \<lfloor>y\<rfloor>" by (metis Ints_of_int)
  then have fm: "\<lfloor>- y\<rfloor> = - \<lfloor>y\<rfloor> - 1"
    by (simp add: floor_minus ceiling_altdef)
  from False have fr: "frac (- y) = 1 - frac y"
    by (simp add: frac_neg)
  show ?thesis
    unfolding rne_def fm fr by auto
qed

lemma binade_ge: "- 1022 \<le> binade x"
  by (simp add: binade_def)

lemma binade_minus [simp]: "binade (- x) = binade x"
  by (simp add: binade_def)

lemma quantum_pos [simp]: "0 < quantum x"
  by (simp add: quantum_def)

lemma quantum_nonneg [simp]: "0 \<le> quantum x"
  by (simp add: quantum_def)

lemma quantum_ne0 [simp]: "quantum x \<noteq> 0"
  by (simp add: quantum_def)

lemma quantum_minus [simp]: "quantum (- x) = quantum x"
  by (simp add: quantum_def)

lemma fl_minus: "fl (- x) = - fl x"
  by (simp add: fl_def rne_minus)

lemma fl_0 [simp]: "fl 0 = 0"
  by (simp add: fl_def)

lemma fl_nonneg: "0 \<le> x \<Longrightarrow> 0 \<le> fl x"
proof -
  assume "0 \<le> x"
  then have "of_int 0 \<le> x / quantum x" by simp
  then have "0 \<le> rne (x / quantum x)" by (rule rne_ge)
  then show ?thesis by (simp add: fl_def)
qed

lemma below_next_binade:
  assumes "0 < x"
  shows "x < pow2 (binade x + 1)"
proof -
  have "log 2 x < of_int (\<lfloor>log 2 x\<rfloor> + 1)" by linarith
  also have "\<dots> \<le> of_int (binade x + 1)"
    using assms by (simp add: binade_def)
  finally have "log 2 x < of_int (binade x + 1)" .
  then have "2 powr log 2 x < 2 powr of_int (binade x + 1)" by simp
  with assms show ?thesis by (simp add: pow2_def)
qed

lemma above_binade:
  assumes "0 < x" "- 1022 \<le> \<lfloor>log 2 x\<rfloor>"
  shows "binade x = \<lfloor>log 2 x\<rfloor>" "pow2 (binade x) \<le> x"
proof -
  from assms show b: "binade x = \<lfloor>log 2 x\<rfloor>" by (simp add: binade_def)
  have "of_int \<lfloor>log 2 x\<rfloor> \<le> log 2 x" by simp
  then have "2 powr of_int \<lfloor>log 2 x\<rfloor> \<le> 2 powr log 2 x" by simp
  with assms(1) b show "pow2 (binade x) \<le> x" by (simp add: pow2_def)
qed

lemma binade_mono:
  assumes "0 < x" "x \<le> y"
  shows "binade x \<le> binade y"
proof -
  from assms have "log 2 x \<le> log 2 y" by simp
  then have "\<lfloor>log 2 x\<rfloor> \<le> \<lfloor>log 2 y\<rfloor>" by (rule floor_mono)
  with assms show ?thesis by (simp add: binade_def)
qed

lemma pow2_quotient: "pow2 j / pow2 k = pow2 (j - k)"
proof -
  have "pow2 j = pow2 ((j - k) + k)" by simp
  also have "\<dots> = pow2 (j - k) * pow2 k" by (rule pow2_add)
  finally show ?thesis by simp
qed

lemma pow2_53: "pow2 53 = of_int (2 ^ 53)" and pow2_52: "pow2 52 = of_int (2 ^ 52)"
  by (simp_all add: pow2_nat)

lemma fl_upper:
  assumes "0 < x"
  shows "fl x \<le> pow2 (binade x + 1)"
proof -
  from below_next_binade [OF assms]
  have "x / quantum x \<le> pow2 (binade x + 1) / quantum x"
    by (simp add: divide_right_mono)
  also have "\<dots> = pow2 53"
    by (simp add: quantum_def pow2_quotient)
  finally have "x / quantum x \<le> of_int (2 ^ 53)" by (simp only: pow2_53)
  then have "rne (x / quantum x) \<le> 2 ^ 53" by (rule rne_le)
  then have "of_int (rne (x / quantum x)) \<le> (of_int (2 ^ 53) :: real)" by (simp only: of_int_le_iff)
  then have "fl x \<le> pow2 53 * quantum x"
    unfolding fl_def pow2_53 by (rule mult_right_mono) simp
  also have "\<dots> = pow2 (53 + (binade x - 52))"
    unfolding quantum_def by (rule pow2_add [symmetric])
  also have "53 + (binade x - 52) = binade x + 1" by simp
  finally show ?thesis .
qed

lemma fl_lower:
  assumes "0 < x" "- 1022 \<le> \<lfloor>log 2 x\<rfloor>"
  shows "pow2 (binade x) \<le> fl x"
proof -
  from above_binade(2) [OF assms]
  have "pow2 (binade x) / quantum x \<le> x / quantum x"
    by (simp add: divide_right_mono)
  moreover have "pow2 (binade x) / quantum x = pow2 52"
    by (simp add: quantum_def pow2_quotient)
  ultimately have "of_int (2 ^ 52) \<le> x / quantum x" by (simp only: pow2_52)
  then have "2 ^ 52 \<le> rne (x / quantum x)" by (rule rne_ge)
  then have "(of_int (2 ^ 52) :: real) \<le> of_int (rne (x / quantum x))" by (simp only: of_int_le_iff)
  then have "pow2 52 * quantum x \<le> fl x"
    unfolding fl_def pow2_52 by (rule mult_right_mono) simp
  moreover have "pow2 52 * quantum x = pow2 (52 + (binade x - 52))"
    unfolding quantum_def by (rule pow2_add [symmetric])
  ultimately show ?thesis by simp
qed

lemma fl_mono_pos:
  assumes "0 < x" "x \<le> y"
  shows "fl x \<le> fl y"
proof (cases "binade x = binade y")
  case True
  then have q: "quantum x = quantum y" by (simp add: quantum_def)
  from assms have "x / quantum y \<le> y / quantum y" by (simp add: divide_right_mono)
  then have "rne (x / quantum y) \<le> rne (y / quantum y)" by (rule rne_mono)
  then have "(of_int (rne (x / quantum y)) :: real) \<le> of_int (rne (y / quantum y))" by simp
  then show ?thesis
    unfolding fl_def q by (rule mult_right_mono) simp
next
  case False
  with binade_mono [OF assms] have lt: "binade x + 1 \<le> binade y" by simp
  with binade_ge [of x] have "- 1022 < binade y" by linarith
  then have n: "- 1022 \<le> \<lfloor>log 2 y\<rfloor>"
    using assms by (simp add: binade_def max_def split: if_splits)
  from assms have y: "0 < y" by simp
  have "fl x \<le> pow2 (binade x + 1)" using assms(1) by (rule fl_upper)
  also have "\<dots> \<le> pow2 (binade y)" using lt by (rule pow2_mono)
  also have "\<dots> \<le> fl y" using y n by (rule fl_lower)
  finally show ?thesis .
qed

lemma fl_mono: "x \<le> y \<Longrightarrow> fl x \<le> fl y"
proof -
  assume xy: "x \<le> y"
  consider (pos) "0 < x" | (neg) "y < 0" | (mid) "x \<le> 0" "0 \<le> y" by linarith
  then show ?thesis
  proof cases
    case pos
    then show ?thesis using xy by (rule fl_mono_pos)
  next
    case neg
    with xy have "0 < - y" "- y \<le> - x" by simp_all
    then have "fl (- y) \<le> fl (- x)" by (rule fl_mono_pos)
    then show ?thesis by (simp add: fl_minus)
  next
    case mid
    from mid(1) have "0 \<le> fl (- x)" by (intro fl_nonneg) simp
    then have "fl x \<le> 0" by (simp add: fl_minus)
    also from mid(2) have "0 \<le> fl y" by (rule fl_nonneg)
    finally show ?thesis .
  qed
qed

lemma round64_mono: "x \<le> y \<Longrightarrow> round64 x \<le> round64 y"
  using fl_mono [of x y] by (simp add: round64_def)

text \<open>Every float is a multiple of the smallest subnormal number.\<close>

definition grid :: "real \<Rightarrow> bool" where
  "grid x \<longleftrightarrow> (\<exists>k::int. x = of_int k * pow2 (- 1074))"

lemma pow2_int: "0 \<le> k \<Longrightarrow> \<exists>n::int. pow2 k = of_int n"
  using pow2_nat [of k] by blast

lemma pow2_grid: "- 1074 \<le> e \<Longrightarrow> \<exists>n::int. pow2 e = of_int n * pow2 (- 1074)"
proof -
  assume "- 1074 \<le> e"
  then obtain n :: int where n: "pow2 (e + 1074) = of_int n"
    using pow2_int [of "e + 1074"] by auto
  have "pow2 e = pow2 ((e + 1074) + (- 1074))" by simp
  also have "\<dots> = pow2 (e + 1074) * pow2 (- 1074)" by (rule pow2_add)
  finally show ?thesis using n by auto
qed

lemma grid_mult: "- 1074 \<le> e \<Longrightarrow> grid (of_int m * pow2 e)"
proof -
  assume "- 1074 \<le> e"
  from pow2_grid [OF this] obtain n :: int where "pow2 e = of_int n * pow2 (- 1074)" ..
  then have "of_int m * pow2 e = of_int (m * n) * pow2 (- 1074)" by simp
  then show ?thesis unfolding grid_def by blast
qed

lemma grid_double: "double x \<Longrightarrow> grid x"
  by (auto simp: double_def grid_mult)

lemma grid_fl: "grid (fl x)"
proof -
  from binade_ge [of x] have "- 1074 \<le> binade x - 52" by simp
  then show ?thesis unfolding fl_def quantum_def by (rule grid_mult)
qed

lemma grid_diff: "grid a \<Longrightarrow> grid b \<Longrightarrow> grid (a - b)"
proof -
  assume "grid a" "grid b"
  then obtain j k :: int where "a = of_int j * pow2 (- 1074)" "b = of_int k * pow2 (- 1074)"
    unfolding grid_def by blast
  then have "a - b = of_int (j - k) * pow2 (- 1074)" by (simp add: algebra_simps)
  then show ?thesis unfolding grid_def by blast
qed

lemma grid_pos: "grid x \<Longrightarrow> 0 < x \<Longrightarrow> pow2 (- 1074) \<le> x"
proof -
  assume "grid x" and x: "0 < x"
  then obtain k :: int where k: "x = of_int k * pow2 (- 1074)" unfolding grid_def by blast
  with x have "0 < (of_int k :: real)" by (simp add: zero_less_mult_iff)
  then have "1 \<le> k" by simp
  then have "(1::real) \<le> of_int k" by (simp only: of_int_1_le_iff)
  then have "1 * pow2 (- 1074) \<le> of_int k * pow2 (- 1074)" by (rule mult_right_mono) simp
  with k show ?thesis by simp
qed

lemma quantum_le:
  assumes "pow2 (- 1074) \<le> x"
  shows "quantum x \<le> x"
proof (cases "- 1022 \<le> \<lfloor>log 2 x\<rfloor>")
  case True
  from assms have x: "0 < x" using pow2_pos [of "- 1074"] by linarith
  have "quantum x \<le> pow2 (binade x)" unfolding quantum_def by (rule pow2_mono) simp
  also have "\<dots> \<le> x" using x True by (rule above_binade(2))
  finally show ?thesis .
next
  case False
  from assms have x: "0 < x" using pow2_pos [of "- 1074"] by linarith
  with False have "binade x = - 1022" by (simp add: binade_def)
  then have "quantum x = pow2 (- 1074)" by (simp add: quantum_def)
  with assms show ?thesis by simp
qed

lemma fl_pos:
  assumes "pow2 (- 1074) \<le> x"
  shows "0 < fl x"
proof -
  from quantum_le [OF assms] have "of_int 1 \<le> x / quantum x"
    by (simp add: le_divide_eq)
  then have "1 \<le> rne (x / quantum x)" by (rule rne_ge)
  then have "0 < (of_int (rne (x / quantum x)) :: real)" by simp
  then show ?thesis unfolding fl_def by (simp add: zero_less_mult_iff)
qed

lemma fl_sign: "grid x \<Longrightarrow> fl x \<le> 0 \<longleftrightarrow> x \<le> 0"
proof
  assume g: "grid x" and f: "fl x \<le> 0"
  show "x \<le> 0"
  proof (rule ccontr)
    assume "\<not> x \<le> 0"
    then have "0 < x" by simp
    from fl_pos [OF grid_pos [OF g this]] f show False by simp
  qed
next
  assume "x \<le> 0"
  then have "0 \<le> fl (- x)" by (intro fl_nonneg) simp
  then show "fl x \<le> 0" by (simp add: fl_minus)
qed

lemma round64_le0: "grid x \<Longrightarrow> round64 x \<le> 0 \<longleftrightarrow> x \<le> 0"
  using fl_sign [of x] by (auto simp: round64_def zero_pyfloat_def)

lemma fsub_le0:
  assumes "grid now"
  shows "fsub (round64 s) now \<le> 0 \<longleftrightarrow> round64 s \<le> Finite now"
proof (cases "round64 s")
  case (Finite a)
  then have "a = fl s" by (auto simp: round64_def split: if_splits)
  then have "grid (a - now)" using assms by (simp add: grid_fl grid_diff)
  from round64_le0 [OF this] Finite show ?thesis by simp
next
  case PInf
  then show ?thesis by (simp add: zero_pyfloat_def)
next
  case MInf
  then show ?thesis by (simp add: zero_pyfloat_def)
qed

lemma fsub_mono_right: "b \<le> b' \<Longrightarrow> fsub a b' \<le> fsub a b"
  by (cases a) (simp_all add: round64_mono)

lemma pyfloat_le_refl [simp]: "(x :: pyfloat) \<le> x"
  by (cases x) simp_all

lemma pyfloat_le_trans: "(x :: pyfloat) \<le> y \<Longrightarrow> y \<le> z \<Longrightarrow> x \<le> z"
  by (cases x; cases y; cases z) simp_all

lemma fsub_mono_left: "a \<le> a' \<Longrightarrow> fsub a b \<le> fsub a' b"
proof (cases a; cases a')
  fix x y
  assume "a \<le> a'" "a = Finite x" "a' = Finite y"
  then show ?thesis by (simp add: round64_mono)
qed simp_all

lemma pow2_neg_nat: "pow2 (- int k) = 1 / 2 ^ k"
  by (simp add: pow2_def powr_minus powr_realpow inverse_eq_divide)

lemma pow2_of_nat: "pow2 (int k) = 2 ^ k"
  by (simp add: pow2_def powr_realpow)

lemma log2_less_pow2:
  assumes "0 < x" "x < pow2 k"
  shows "\<lfloor>log 2 x\<rfloor> < k"
proof -
  from assms have "log 2 x < of_int k"
    by (simp add: pow2_def log_less_iff)
  then show ?thesis by (simp add: floor_less_iff)
qed

lemma fl_double: "double x \<Longrightarrow> fl x = x"
proof -
  assume "double x"
  then obtain m e where m: "\<bar>m\<bar> < 2 ^ 53" and e: "- 1074 \<le> e" "e \<le> 971"
    and x: "x = of_int m * pow2 e"
    unfolding double_def by blast
  show ?thesis
  proof (cases "m = 0")
    case True
    with x show ?thesis by simp
  next
    case False
    with x have x0: "0 < \<bar>x\<bar>" by simp
    from m have "\<bar>real_of_int m\<bar> < of_int (2 ^ 53)"
      by (simp only: of_int_abs [symmetric] of_int_less_iff)
    then have "\<bar>real_of_int m\<bar> < pow2 53" by (simp only: pow2_53)
    then have "\<bar>x\<bar> < pow2 53 * pow2 e"
      unfolding x abs_mult by (simp add: mult_strict_right_mono)
    also have "\<dots> = pow2 (53 + e)" by (rule pow2_add [symmetric])
    finally have "\<lfloor>log 2 \<bar>x\<bar>\<rfloor> < 53 + e" using x0 by (intro log2_less_pow2)
    with e have b: "binade x - 52 \<le> e" by (simp add: binade_def)
    then obtain n :: int where n: "pow2 (e - (binade x - 52)) = of_int n"
      using pow2_int [of "e - (binade x - 52)"] by auto
    have "pow2 e = pow2 ((e - (binade x - 52)) + (binade x - 52))" by simp
    also have "\<dots> = of_int n * quantum x"
      unfolding quantum_def n [symmetric] by (rule pow2_add)
    finally have pe: "pow2 e = of_int n * quantum x" .
    with x have xq: "x = of_int (m * n) * quantum x"
      by (metis of_int_mult mult.assoc)
    then have "x / quantum x = of_int (m * n)"
      by (metis nonzero_mult_div_cancel_right quantum_ne0)
    then have "rne (x / quantum x) = m * n" by (simp only: rne_of_int)
    then have "fl x = of_int (m * n) * quantum x" by (simp only: fl_def)
    with xq show ?thesis by simp
  qed
qed

lemma double_bound: "double x \<Longrightarrow> \<bar>x\<bar> < 2 ^ 1024"
proof -
  assume "double x"
  then obtain m e where m: "\<bar>m\<bar> < 2 ^ 53" and e: "- 1074 \<le> e" "e \<le> 971"
    and x: "x = of_int m * pow2 e"
    unfolding double_def by blast
  from m have "\<bar>real_of_int m\<bar> < of_int (2 ^ 53)"
    by (simp only: of_int_abs [symmetric] of_int_less_iff)
  then have "\<bar>real_of_int m\<bar> < pow2 53" by (simp only: pow2_53)
  then have "\<bar>x\<bar> < pow2 53 * pow2 e"
    unfolding x abs_mult by (simp add: mult_strict_right_mono)
  also have "\<dots> \<le> pow2 53 * pow2 971"
    using e(2) by (intro mult_left_mono pow2_mono) simp_all
  also have "\<dots> = pow2 1024" by (simp add: pow2_add [symmetric])
  also have "\<dots> = 2 ^ 1024" using pow2_of_nat [of 1024] by simp
  finally show ?thesis .
qed

lemma round64_double: "double x \<Longrightarrow> round64 x = Finite x"
proof -
  assume d: "double x"
  from double_bound [OF d] have "x < 2 ^ 1024" "- (2 ^ 1024) < x"
    by (simp_all add: abs_less_iff)
  then show ?thesis by (simp add: round64_def fl_double [OF d])
qed

lemma double_of_int: "\<bar>m\<bar> < 2 ^ 53 \<Longrightarrow> double (of_int m)"
  unfolding double_def by (rule exI [of _ m], rule exI [of _ 0]) simp

lemma double_dyadic: "\<bar>m\<bar> < 2 ^ 53 \<Longrightarrow> k \<le> 1074 \<Longrightarrow> double (of_int m / 2 ^ k)"
  unfolding double_def
  by (rule exI [of _ m], rule exI [of _ "- int k"]) (simp add: pow2_neg_nat)

lemma rne_eqI: "of_int k \<le> y \<Longrightarrow> y < of_int k + 1 / 2 \<Longrightarrow> rne y = k"
proof -
  assume a: "of_int k \<le> y" "y < of_int k + 1 / 2"
  then have "\<lfloor>y\<rfloor> = k" by (intro floor_unique) simp_all
  with a show ?thesis by (simp add: rne_def frac_def)
qed

lemma rne_tie: "y = of_int k + 1 / 2 \<Longrightarrow> rne y = (if even k then k else k + 1)"
proof -
  assume a: "y = of_int k + 1 / 2"
  then have "\<lfloor>y\<rfloor> = k" by (intro floor_unique) simp_all
  with a show ?thesis by (simp add: rne_def frac_def)
qed

lemma binade_eqI: "0 < x \<Longrightarrow> pow2 b \<le> x \<Longrightarrow> x < pow2 (b + 1) \<Longrightarrow> - 1022 \<le> b \<Longrightarrow> binade x = b"
proof -
  assume a: "0 < x" "pow2 b \<le> x" "x < pow2 (b + 1)" "- 1022 \<le> b"
  then have "\<lfloor>log 2 x\<rfloor> = b"
    by (simp add: floor_log_eq_powr_iff pow2_def)
  with a show ?thesis by (simp add: binade_def)
qed

lemma fl_eval:
  assumes "0 < x" "pow2 b \<le> x" "x < pow2 (b + 1)" "- 1022 \<le> b"
    and "pow2 (b - 52) = q" "rne (x / q) = k"
  shows "fl x = of_int k * q"
  using assms binade_eqI [of x b] by (simp add: fl_def quantum_def)

text \<open>\<open>2^53 + 1\<close> is rounded to \<open>2^53\<close>.\<close>

lemma fl_2_53_plus_1: "fl (2 ^ 53 + 1) = 2 ^ 53"
proof -
  have "rne ((2 ^ 53 + 1) / 2) = (if even ((2::int) ^ 52) then 2 ^ 52 else 2 ^ 52 + 1)"
    by (rule rne_tie) simp
  then have r: "rne ((2 ^ 53 + 1) / 2) = 2 ^ 52" by simp
  have "fl (2 ^ 53 + 1) = of_int (2 ^ 52) * 2"
    using pow2_of_nat [of 53] pow2_of_nat [of 54] pow2_of_nat [of 1] r
    by (intro fl_eval [where b = 53]) simp_all
  then show ?thesis by simp
qed

text \<open>The sum of 1700000000.0 and 0.01 is rounded to the float 1700000000.01.\<close>

lemma fl_epoch:
  "fl (1700000000 + 5764607523034235 / 2 ^ 59) = 1700000000 + 41943 / 2 ^ 22"
proof -
  let ?x = "1700000000 + 5764607523034235 / 2 ^ 59 :: real"
  have r: "rne (?x / (1 / 2 ^ 22)) = 7130316800041943"
    by (rule rne_eqI) simp_all
  have "fl ?x = of_int 7130316800041943 * (1 / 2 ^ 22)"
    using pow2_of_nat [of 30] pow2_of_nat [of 31] pow2_neg_nat [of 22] r
    by (intro fl_eval [where b = 30]) simp_all
  then show ?thesis by simp
qed

lemma double_numeral: "(numeral n :: int) < 2 ^ 53 \<Longrightarrow> double (numeral n)"
  using double_of_int [of "numeral n"] by simp

lemma double_0 [simp]: "double 0"
  using double_of_int [of 0] by simp

lemma double_1 [simp]: "double 1"
  using double_of_int [of 1] by simp

lemma double_neg_numeral: "(numeral n :: int) < 2 ^ 53 \<Longrightarrow> double (- numeral n)"
  using double_of_int [of "- numeral n"] by simp

lemma round64_0 [simp]: "round64 0 = Finite 0"
  by (simp add: round64_double)

lemma round64_1 [simp]: "round64 1 = Finite 1"
  by (simp add: round64_double)

lemma round64_minus_1 [simp]: "round64 (- 1) = Finite (- 1)"
  using double_of_int [of "- 1"] by (simp add: round64_double)

lemma round64_numeral [simp]:
  "(numeral n :: int) < 2 ^ 53 \<Longrightarrow> round64 (numeral n) = Finite (numeral n)"
  by (simp add: round64_double double_numeral)

lemma round64_neg_numeral [simp]:
  "(numeral n :: int) < 2 ^ 53 \<Longrightarrow> round64 (- numeral n) = Finite (- numeral n)"
  by (simp add: round64_double double_neg_numeral)

section \<open>The display and its surroundings\<close>

text \<open>An entry of \<open>cb_queue\<close> is a tuple: its first component and the components after it.\<close>

type_synonym intent = "string \<times> int list"

datatype exn = AttributeError | IndexError | KeyError | OverflowError | RemoteError

text \<open>The methods of the RPC client that the display awaits, with their arguments.\<close>

datatype rpc =
    Set_fast_mode string bool
  | Set_auto_exposure string bool
  | Set_reference_freq string pyfloat
  | Set_exposure string int int
  | Get_freq string real int bool bool bool
  | Get_min_exposure
  | Get_max_exposure

text \<open>
  What the task does to the outside, in order: a method awaited on client object \<open>h\<close>,
  \<open>connect_rpc\<close> started on \<open>h\<close> (host, port), the same call having returned (the
  connection of \<open>h\<close> is open from there on), \<open>close_rpc\<close> called on \<open>h\<close>,
  \<open>logger.error\<close> (with the server name), \<open>asyncio.sleep\<close>, and the bounded wait on
  \<open>wake_loop\<close>.
\<close>

datatype effect =
    Call nat rpc
  | Connecting nat string nat
  | Opened nat
  | Closed nat
  | Logged string
  | Slept real
  | Waited pyfloat

text \<open>
  What other code does while the task is suspended: \<open>add_async_cb\<close> run by a widget
  signal, \<open>wake_loop.set()\<close>, an assignment to \<open>self.server\<close>, \<open>exit_request.set()\<close>, a new
  timestamp in \<open>freq_db\<close> or \<open>osa_db\<close>, the clock, and the user changing a widget.
\<close>

datatype event =
    Enqueue intent
  | Wake
  | Assign_server string
  | Exit_request
  | Freq_data real
  | Osa_data real
  | Time real
  | Check_fast_mode bool
  | Check_auto_exposure bool
  | Edit_f_ref real
  | Edit_exposure nat int

record suspension =
  events :: "event list"
  raises :: bool

text \<open>The entry of \<open>laser_db\<close> for this laser, as far as \<open>setConnected\<close> reads it.\<close>

record settings =
  db_fast_mode :: bool
  db_auto_exposure :: bool
  db_f_ref :: real
  db_exposure :: "int list"

record world =
  laser :: string
  server :: string
  client :: "nat option"
  next_client :: nat
  cb_queue :: "intent list"
  wake_loop :: bool
  fast_mode :: bool
  auto_exposure :: bool
  f_ref :: real
  exposure :: "int list"
  connected :: bool
  exit_request :: bool
  freq_timestamp :: "real option"
  osa_timestamp :: "real option"
  laser_db :: "settings option"
  servers :: "string \<rightharpoonup> string \<times> nat"
  poll_time :: real
  poll_time_fast :: real
  strict_close :: bool
  clock :: real
  script :: "suspension list"
  trace :: "effect list"

text \<open>
  \<open>client = None\<close>: the attribute \<open>self.client\<close> has not been assigned (the constructor
  does not assign it). \<open>freq_timestamp = None\<close>: \<open>freq_db\<close> has no
  entry for the laser, so that \<open>freq_db[laser]["timestamp"]\<close> raises \<open>KeyError\<close>; likewise
  \<open>osa_timestamp\<close> and \<open>laser_db\<close>. \<open>strict_close\<close>: whether the client library's \<open>close_rpc\<close> raises on a
  client whose connection is not open. \<open>script\<close> is what is still to come, \<open>trace\<close> what
  the task has done so far.
\<close>

datatype 'a result = Returns 'a | Raises exn | Blocks

definition REGULAR_UPDATE_PRIORITY :: int where
  "REGULAR_UPDATE_PRIORITY = 3"

definition FAST_MODE_PRIORITY :: int where
  "FAST_MODE_PRIORITY = 2"

section \<open>Suspension points\<close>

text \<open>\<open>add_async_cb\<close>, the slot connected to the widget signals.\<close>

definition add_async_cb :: "intent \<Rightarrow> world \<Rightarrow> world" where
  "add_async_cb data w = w\<lparr>cb_queue := cb_queue w @ [data], wake_loop := True\<rparr>"

fun apply_event :: "event \<Rightarrow> world \<Rightarrow> world" where
  "apply_event (Enqueue data) w = add_async_cb data w"
| "apply_event Wake w = w\<lparr>wake_loop := True\<rparr>"
| "apply_event (Assign_server s) w = w\<lparr>server := s\<rparr>"
| "apply_event Exit_request w = w\<lparr>exit_request := True\<rparr>"
| "apply_event (Freq_data t) w = w\<lparr>freq_timestamp := Some t\<rparr>"
| "apply_event (Osa_data t) w = w\<lparr>osa_timestamp := Some t\<rparr>"
| "apply_event (Time t) w = w\<lparr>clock := t\<rparr>"
| "apply_event (Check_fast_mode b) w = w\<lparr>fast_mode := b\<rparr>"
| "apply_event (Check_auto_exposure b) w = w\<lparr>auto_exposure := b\<rparr>"
| "apply_event (Edit_f_ref v) w = w\<lparr>f_ref := v\<rparr>"
| "apply_event (Edit_exposure i v) w = w\<lparr>exposure := (exposure w)[i := v]\<rparr>"

text \<open>
  The task gives up control: the next entry of the script happens. \<open>None\<close> when the
  script has no entry left, that is, the task is never resumed.
\<close>

definition suspend :: "world \<Rightarrow> (bool \<times> world) option" where
  "suspend w =
     (case script w of
        [] \<Rightarrow> None
      | s # rest \<Rightarrow> Some (raises s, fold apply_event (events s) (w\<lparr>script := rest\<rparr>)))"

text \<open>Sequencing of statements: the second runs when the first has returned.\<close>

definition andthen ::
  "'a result \<times> world \<Rightarrow> ('a \<Rightarrow> world \<Rightarrow> 'b result \<times> world) \<Rightarrow> 'b result \<times> world" where
  "andthen rw f =
     (case rw of
        (Returns x, w) \<Rightarrow> f x w
      | (Raises e, w) \<Rightarrow> (Raises e, w)
      | (Blocks, w) \<Rightarrow> (Blocks, w))"

text \<open>\<open>await self.client.m(...)\<close> once \<open>self.client\<close> has been read as \<open>h\<close>.\<close>

definition call :: "nat \<Rightarrow> rpc \<Rightarrow> world \<Rightarrow> unit result \<times> world" where
  "call h c w =
     (let w' = w\<lparr>trace := trace w @ [Call h c]\<rparr> in
      case suspend w' of
        None \<Rightarrow> (Blocks, w')
      | Some (r, w'') \<Rightarrow> (if r then Raises RemoteError else Returns (), w''))"

text \<open>\<open>await asyncio.sleep(d)\<close>.\<close>

definition sleep :: "real \<Rightarrow> world \<Rightarrow> unit result \<times> world" where
  "sleep d w =
     (let w' = w\<lparr>trace := trace w @ [Slept d]\<rparr> in
      case suspend w' of
        None \<Rightarrow> (Blocks, w')
      | Some (_, w'') \<Rightarrow> (Returns (), w''))"

text \<open>
  \<open>asyncio.wait_for(self.wake_loop.wait(), t)\<close> inside \<open>try ... except TimeoutError: pass\<close>:
  the task is resumed by the event or by the timeout, and goes on in both cases.
\<close>

definition wait_for_wake :: "pyfloat \<Rightarrow> world \<Rightarrow> unit result \<times> world" where
  "wait_for_wake t w =
     (let w' = w\<lparr>trace := trace w @ [Waited t]\<rparr> in
      case suspend w' of
        None \<Rightarrow> (Blocks, w')
      | Some (_, w'') \<Rightarrow> (Returns (), w''))"

section \<open>The callbacks\<close>

text \<open>Python's \<open>xs[i]\<close>: a negative index counts from the end, out of range raises.\<close>

definition py_index :: "'a list \<Rightarrow> int \<Rightarrow> 'a option" where
  "py_index xs i =
     (if 0 \<le> i \<and> i < int (length xs) then Some (xs ! nat i)
      else if - int (length xs) \<le> i \<and> i < 0 then Some (xs ! nat (int (length xs) + i))
      else None)"

definition fast_mode_cb :: "world \<Rightarrow> unit result \<times> world" where
  "fast_mode_cb w =
     (case client w of
        None \<Rightarrow> (Raises AttributeError, w)
      | Some h \<Rightarrow> call h (Set_fast_mode (laser w) (fast_mode w)) w)"

definition auto_expose_cb :: "world \<Rightarrow> unit result \<times> world" where
  "auto_expose_cb w =
     (case client w of
        None \<Rightarrow> (Raises AttributeError, w)
      | Some h \<Rightarrow> call h (Set_auto_exposure (laser w) (auto_exposure w)) w)"

definition f_ref_cb :: "world \<Rightarrow> unit result \<times> world" where
  "f_ref_cb w =
     (case client w of
        None \<Rightarrow> (Raises AttributeError, w)
      | Some h \<Rightarrow> call h (Set_reference_freq (laser w) (round64 (f_ref w * 10 ^ 12))) w)"

definition exposure_cb :: "int \<Rightarrow> world \<Rightarrow> unit result \<times> world" where
  "exposure_cb ccd w =
     (case client w of
        None \<Rightarrow> (Raises AttributeError, w)
      | Some h \<Rightarrow>
          (case py_index (exposure w) ccd of
             None \<Rightarrow> (Raises IndexError, w)
           | Some v \<Rightarrow> call h (Set_exposure (laser w) v ccd) w))"

section \<open>Draining the callback queue\<close>

text \<open>
  The body of \<open>while self.cb_queue:\<close> up to the \<open>del\<close>: the first \<open>if\<close> stands alone,
  the other three kinds form one \<open>if/elif\<close> chain. \<open>next_cb[1]\<close> raises on a tuple of
  length one.
\<close>

definition dispatch :: "intent \<Rightarrow> world \<Rightarrow> unit result \<times> world" where
  "dispatch next_cb w =
     andthen (if fst next_cb = ''fast_mode'' then fast_mode_cb w else (Returns (), w))
       (\<lambda>_ w1.
          if fst next_cb = ''auto_expose'' then auto_expose_cb w1
          else if fst next_cb = ''f_ref'' then f_ref_cb w1
          else if fst next_cb = ''exposure'' then
            (case snd next_cb of
               [] \<Rightarrow> (Raises IndexError, w1)
             | ccd # _ \<Rightarrow> exposure_cb ccd w1)
          else (Returns (), w1))"

text \<open>\<open>del self.cb_queue[0]\<close>.\<close>

definition del_first :: "world \<Rightarrow> unit result \<times> world" where
  "del_first w =
     (case cb_queue w of
        [] \<Rightarrow> (Raises IndexError, w)
      | _ # rest \<Rightarrow> (Returns (), w\<lparr>cb_queue := rest\<rparr>))"

text \<open>
  Termination of the drain: every turn removes one entry, and the entries still to be
  appended are those of the script.
\<close>

definition enqueued :: "event list \<Rightarrow> intent list" where
  "enqueued es = concat (map (\<lambda>e. case e of Enqueue d \<Rightarrow> [d] | _ \<Rightarrow> []) es)"

definition arrivals :: "suspension list \<Rightarrow> intent list" where
  "arrivals ss = concat (map (\<lambda>s. enqueued (events s)) ss)"

definition backlog :: "world \<Rightarrow> nat" where
  "backlog w = length (cb_queue w) + length (arrivals (script w))"

lemma andthen_cong [fundef_cong]:
  assumes "rw = rw'" and "\<And>x w. rw' = (Returns x, w) \<Longrightarrow> f x w = f' x w"
  shows "andthen rw f = andthen rw' f'"
  using assms by (auto simp: andthen_def split: prod.splits result.splits)

lemma script_apply_event [simp]: "script (apply_event e w) = script w"
  by (cases e) (simp_all add: add_async_cb_def)

lemma script_fold_events [simp]: "script (fold apply_event es w) = script w"
  by (induction es arbitrary: w) simp_all

lemma trace_apply_event [simp]: "trace (apply_event e w) = trace w"
  by (cases e) (simp_all add: add_async_cb_def)

lemma trace_fold_events [simp]: "trace (fold apply_event es w) = trace w"
  by (induction es arbitrary: w) simp_all

lemma client_apply_event [simp]: "client (apply_event e w) = client w"
  by (cases e) (simp_all add: add_async_cb_def)

lemma client_fold_events [simp]: "client (fold apply_event es w) = client w"
  by (induction es arbitrary: w) simp_all

lemma cb_queue_apply_event:
  "cb_queue (apply_event e w) = cb_queue w @ enqueued [e]"
  by (cases e) (simp_all add: add_async_cb_def enqueued_def)

lemma enqueued_Cons: "enqueued (e # es) = enqueued [e] @ enqueued es"
  by (simp add: enqueued_def)

lemma cb_queue_fold_events: "cb_queue (fold apply_event es w) = cb_queue w @ enqueued es"
proof (induction es arbitrary: w)
  case Nil
  show ?case by (simp add: enqueued_def)
next
  case (Cons e es)
  show ?case by (simp add: Cons cb_queue_apply_event enqueued_Cons [of e es])
qed

lemma suspend_backlog: "suspend w = Some (r, w') \<Longrightarrow> backlog w' = backlog w"
  by (auto simp: suspend_def backlog_def arrivals_def cb_queue_fold_events split: list.splits)

lemma call_backlog: "call h c w = (r, w') \<Longrightarrow> backlog w' = backlog w"
  by (auto simp: call_def Let_def backlog_def split: option.splits dest!: suspend_backlog)

lemma dispatch_backlog: "dispatch c w = (r, w') \<Longrightarrow> backlog w' = backlog w"
  by (auto simp: dispatch_def andthen_def fast_mode_cb_def auto_expose_cb_def f_ref_cb_def
      exposure_cb_def split: if_splits prod.splits result.splits option.splits list.splits
      dest: call_backlog)

lemma del_first_backlog: "del_first w = (Returns x, w') \<Longrightarrow> backlog w' < backlog w"
  by (auto simp: del_first_def backlog_def split: list.splits)

text \<open>
  \<open>while self.cb_queue:\<close> with the head read as \<open>next_cb\<close>, dispatched, and deleted
  after the dispatch has returned. An exception leaves the loop at once.
\<close>

function drain :: "world \<Rightarrow> unit result \<times> world" where
  "drain w =
     (case cb_queue w of
        [] \<Rightarrow> (Returns (), w)
      | next_cb # _ \<Rightarrow>
          andthen (andthen (dispatch next_cb w) (\<lambda>_. del_first)) (\<lambda>_. drain))"
  by pat_completeness auto
termination
proof (relation "measure backlog")
  show "wf (measure backlog)" by simp
next
  fix w next_cb rest x w'
  assume "andthen (dispatch next_cb w) (\<lambda>_. del_first) = (Returns x, w')"
  then obtain w1 where d: "dispatch next_cb w = (Returns (), w1)" and e: "del_first w1 = (Returns x, w')"
    by (auto simp: andthen_def split: prod.splits result.splits)
  from dispatch_backlog [OF d] del_first_backlog [OF e]
  show "(w', w) \<in> measure backlog" by simp
qed


declare drain.simps [simp del]

section \<open>Asking for new data\<close>

definition data_timestamp :: "real \<Rightarrow> real \<Rightarrow> real" where
  "data_timestamp freq_ts osa_ts = min freq_ts osa_ts"

definition data_expiry :: "real \<Rightarrow> real \<Rightarrow> pyfloat" where
  "data_expiry ts poll = round64 (ts + poll)"

definition next_measurement_in :: "real \<Rightarrow> real \<Rightarrow> real \<Rightarrow> pyfloat" where
  "next_measurement_in ts poll now = fsub (data_expiry ts poll) now"

definition get_freq :: "real \<Rightarrow> int \<Rightarrow> world \<Rightarrow> unit result \<times> world" where
  "get_freq age priority w =
     (case client w of
        None \<Rightarrow> (Raises AttributeError, w)
      | Some h \<Rightarrow> call h (Get_freq (laser w) age priority True True True) w)"

text \<open>
  The second half of the \<open>try\<close> block: choice of poll time and priority, the two
  timestamps, the request when the data has expired. The value returned is the local
  \<open>next_measurement_in\<close> as it stands at the end of the block.
\<close>

definition refresh :: "world \<Rightarrow> pyfloat result \<times> world" where
  "refresh w =
     (let poll = (if fast_mode w then poll_time_fast w else poll_time w);
          priority = (if fast_mode w then FAST_MODE_PRIORITY else REGULAR_UPDATE_PRIORITY)
      in case freq_timestamp w of
           None \<Rightarrow> (Raises KeyError, w)
         | Some freq_ts \<Rightarrow>
             (case osa_timestamp w of
                None \<Rightarrow> (Raises KeyError, w)
              | Some osa_ts \<Rightarrow>
                  (if next_measurement_in (data_timestamp freq_ts osa_ts) poll (clock w) \<le> 0
                   then andthen (get_freq poll priority w) (\<lambda>_ w'. (Returns (Finite poll), w'))
                   else (Returns (next_measurement_in (data_timestamp freq_ts osa_ts) poll (clock w)), w))))"

section \<open>The inner cycle\<close>

text \<open>
  One turn of \<open>while not exit_request.is_set() and self.server:\<close>. \<open>except Exception\<close>
  catches what the drain or the request raised, sleeps a tenth of a second and goes to
  the next turn; nothing else is done there.
\<close>

definition inner_cycle :: "world \<Rightarrow> unit result \<times> world" where
  "inner_cycle w =
     (case andthen (drain (w\<lparr>wake_loop := False\<rparr>)) (\<lambda>_. refresh) of
        (Returns t, w') \<Rightarrow> wait_for_wake t w'
      | (Raises e, w') \<Rightarrow> sleep (1 / 10) w'
      | (Blocks, w') \<Rightarrow> (Blocks, w'))"

section \<open>What the steps of the inner cycle leave alone\<close>

text \<open>
  No step of the inner cycle assigns \<open>self.client\<close>, creates a client, opens or closes a
  connection, or puts back an entry of the script.
\<close>

fun harmless :: "effect \<Rightarrow> bool" where
  "harmless (Connecting _ _ _) = False"
| "harmless (Opened _) = False"
| "harmless (Closed _) = False"
| "harmless _ = True"

definition quiet :: "world \<Rightarrow> world \<Rightarrow> bool" where
  "quiet w w' \<longleftrightarrow>
     client w' = client w \<and> next_client w' = next_client w \<and>
     length (script w') \<le> length (script w) \<and>
     (\<exists>ext. trace w' = trace w @ ext \<and> list_all harmless ext)"

lemma quiet_refl [simp]: "quiet w w"
  by (simp add: quiet_def)

lemma quiet_trans: "quiet w w1 \<Longrightarrow> quiet w1 w2 \<Longrightarrow> quiet w w2"
  by (auto simp: quiet_def)

lemma next_client_apply_event [simp]: "next_client (apply_event e w) = next_client w"
  by (cases e) (simp_all add: add_async_cb_def)

lemma next_client_fold_events [simp]: "next_client (fold apply_event es w) = next_client w"
  by (induction es arbitrary: w) simp_all

lemma suspend_script: "suspend w = Some (r, w') \<Longrightarrow> length (script w') < length (script w)"
  by (auto simp: suspend_def split: list.splits)

lemma suspend_quiet: "suspend w = Some (r, w') \<Longrightarrow> quiet w w'"
  by (auto simp: suspend_def quiet_def split: list.splits)

lemma call_quiet: "call h c w = (r, w') \<Longrightarrow> quiet w w'"
  by (auto simp: call_def Let_def quiet_def split: option.splits dest!: suspend_quiet)

lemma sleep_quiet: "sleep d w = (r, w') \<Longrightarrow> quiet w w'"
  by (auto simp: sleep_def Let_def quiet_def split: option.splits dest!: suspend_quiet)

lemma wait_for_wake_quiet: "wait_for_wake d w = (r, w') \<Longrightarrow> quiet w w'"
  by (auto simp: wait_for_wake_def Let_def quiet_def split: option.splits dest!: suspend_quiet)

lemma sleep_script: "sleep d w = (Returns x, w') \<Longrightarrow> length (script w') < length (script w)"
  by (auto simp: sleep_def Let_def split: option.splits dest!: suspend_script)

lemma wait_for_wake_script:
  "wait_for_wake d w = (Returns x, w') \<Longrightarrow> length (script w') < length (script w)"
  by (auto simp: wait_for_wake_def Let_def split: option.splits dest!: suspend_script)

lemma andthen_quiet:
  assumes "andthen (f w) g = (r, w')"
    and "\<And>r1 w1. f w = (r1, w1) \<Longrightarrow> quiet w w1"
    and "\<And>x w1 r2 w2. g x w1 = (r2, w2) \<Longrightarrow> quiet w1 w2"
  shows "quiet w w'"
  using assms
  by (auto simp: andthen_def split: prod.splits result.splits intro: quiet_trans)

lemma fast_mode_cb_quiet: "fast_mode_cb w = (r, w') \<Longrightarrow> quiet w w'"
  by (auto simp: fast_mode_cb_def split: option.splits dest: call_quiet)

lemma auto_expose_cb_quiet: "auto_expose_cb w = (r, w') \<Longrightarrow> quiet w w'"
  by (auto simp: auto_expose_cb_def split: option.splits dest: call_quiet)

lemma f_ref_cb_quiet: "f_ref_cb w = (r, w') \<Longrightarrow> quiet w w'"
  by (auto simp: f_ref_cb_def split: option.splits dest: call_quiet)

lemma exposure_cb_quiet: "exposure_cb ccd w = (r, w') \<Longrightarrow> quiet w w'"
  by (auto simp: exposure_cb_def split: option.splits dest: call_quiet)

lemma dispatch_quiet: "dispatch c w = (r, w') \<Longrightarrow> quiet w w'"
  unfolding dispatch_def
  by (erule andthen_quiet)
    (auto split: if_splits list.splits
      dest: fast_mode_cb_quiet auto_expose_cb_quiet f_ref_cb_quiet exposure_cb_quiet)

lemma del_first_quiet: "del_first w = (r, w') \<Longrightarrow> quiet w w'"
  by (auto simp: del_first_def quiet_def split: list.splits)

lemma drain_quiet: "drain w = (r, w') \<Longrightarrow> quiet w w'"
proof (induction w arbitrary: r w' rule: drain.induct)
  case (1 w)
  show ?case
  proof (cases "cb_queue w")
    case Nil
    with "1.prems" show ?thesis by (simp add: drain.simps)
  next
    case (Cons c q)
    from "1.prems" Cons
    have run: "andthen (andthen (dispatch c w) (\<lambda>_. del_first)) (\<lambda>_. drain) = (r, w')"
      by (simp add: drain.simps)
    obtain r1 w1 where first: "andthen (dispatch c w) (\<lambda>_. del_first) = (r1, w1)"
      by (cases "andthen (dispatch c w) (\<lambda>_. del_first)")
    have q1: "quiet w w1"
      using first by (rule andthen_quiet) (auto dest: dispatch_quiet del_first_quiet)
    show ?thesis
    proof (cases r1)
      case (Returns x)
      with run first have "drain w1 = (r, w')" by (simp add: andthen_def)
      with "1.IH" [OF Cons] first Returns have "quiet w1 w'" by blast
      with q1 show ?thesis by (rule quiet_trans)
    next
      case (Raises e)
      with run first q1 show ?thesis by (auto simp: andthen_def)
    next
      case Blocks
      with run first q1 show ?thesis by (auto simp: andthen_def)
    qed
  qed
qed

lemma get_freq_quiet: "get_freq a p w = (r, w') \<Longrightarrow> quiet w w'"
  by (auto simp: get_freq_def split: option.splits dest: call_quiet)

lemma refresh_quiet: "refresh w = (r, w') \<Longrightarrow> quiet w w'"
  by (auto simp: refresh_def Let_def andthen_def
      split: option.splits if_splits prod.splits result.splits dest: get_freq_quiet)

lemma drain_refresh_quiet:
  "andthen (drain w) (\<lambda>_. refresh) = (r, w') \<Longrightarrow> quiet w w'"
  by (erule andthen_quiet) (auto dest: drain_quiet refresh_quiet)

lemma quiet_wake [simp]: "quiet (w\<lparr>wake_loop := b\<rparr>) w' = quiet w w'"
  by (simp add: quiet_def)

lemma inner_cycle_quiet: "inner_cycle w = (r, w') \<Longrightarrow> quiet w w'"
  unfolding inner_cycle_def
  by (auto split: prod.splits result.splits
      dest!: drain_refresh_quiet wait_for_wake_quiet sleep_quiet intro: quiet_trans)

lemma inner_cycle_script:
  "inner_cycle w = (Returns x, w') \<Longrightarrow> length (script w') < length (script w)"
  unfolding inner_cycle_def
  by (auto simp: quiet_def split: prod.splits result.splits
      dest!: drain_refresh_quiet wait_for_wake_script sleep_script)

text \<open>
  \<open>while not self._gui.win.exit_request.is_set() and self.server:\<close>. Every turn that
  returns has been suspended at least once, so the loop ends with the script at the latest.
\<close>

function inner_loop :: "world \<Rightarrow> unit result \<times> world" where
  "inner_loop w =
     (if \<not> exit_request w \<and> server w \<noteq> []
      then andthen (inner_cycle w) (\<lambda>_. inner_loop)
      else (Returns (), w))"
  by pat_completeness auto
termination
  by (relation "measure (\<lambda>w. length (script w))") (auto dest: inner_cycle_script)

section \<open>The outer cycle\<close>

text \<open>
  \<open>await self.wake_loop.wait()\<close>: returns at once when the event is set, else the task
  stays suspended until a stretch of the script has set it.
\<close>

function wake_wait :: "world \<Rightarrow> unit result \<times> world" where
  "wake_wait w =
     (if wake_loop w then (Returns (), w)
      else case suspend w of
             None \<Rightarrow> (Blocks, w)
           | Some (_, w') \<Rightarrow> wake_wait w')"
  by pat_completeness auto
termination
  by (relation "measure (\<lambda>w. length (script w))") (auto dest: suspend_script)


declare inner_loop.simps [simp del]
declare wake_wait.simps [simp del]

text \<open>The clients whose connection is open after a trace.\<close>

fun track_live :: "nat set \<Rightarrow> effect \<Rightarrow> nat set" where
  "track_live S (Opened h) = insert h S"
| "track_live S (Closed h) = S - {h}"
| "track_live S _ = S"

definition live :: "effect list \<Rightarrow> nat set" where
  "live tr = foldl track_live {} tr"

text \<open>
  \<open>self.client.close_rpc()\<close>, not awaited. Reading \<open>self.client\<close> raises when the
  attribute is not there; the library's method may raise when the connection is not open.
\<close>

definition close_rpc :: "world \<Rightarrow> unit result \<times> world" where
  "close_rpc w =
     (case client w of
        None \<Rightarrow> (Raises AttributeError, w)
      | Some h \<Rightarrow>
          (if strict_close w \<and> h \<notin> live (trace w) then Raises AttributeError else Returns (),
           w\<lparr>trace := trace w @ [Closed h]\<rparr>))"

text \<open>\<open>try: ... except Exception: pass\<close>.\<close>

definition except_pass :: "unit result \<times> world \<Rightarrow> unit result \<times> world" where
  "except_pass rw =
     (case rw of
        (Raises e, w) \<Rightarrow> (Returns (), w)
      | (Returns x, w) \<Rightarrow> (Returns x, w)
      | (Blocks, w) \<Rightarrow> (Blocks, w))"

text \<open>
  \<open>setConnected\<close>. Of the widgets only what the loop reads is kept: whether the controls
  are enabled and the values of the check boxes and spin boxes. \<open>setValue\<close> and
  \<open>setChecked\<close> are taken to store the value they are given and to emit no signal;
  colours, texts, the range given to a spin box (to which it clamps) and the seven decimals
  kept by the reference's spin box are left out. Of \<open>update_freq\<close> (called by
  \<open>update_reference\<close>) and \<open>update_osa_trace\<close> the lookups in \<open>freq_db\<close> and \<open>osa_db\<close>
  are kept, which raise when the laser has no entry there; their \<open>wake_loop.set()\<close> is
  left out, since the loop clears the event again before it reads it.
\<close>

text \<open>\<open>self.exposure[ccd].setValue(v)\<close>: the spin box takes a 32-bit integer.\<close>

definition spin_set :: "nat \<Rightarrow> int \<Rightarrow> world \<Rightarrow> unit result \<times> world" where
  "spin_set ccd v w =
     (if length (exposure w) \<le> ccd then (Raises IndexError, w)
      else if v < - (2 ^ 31) \<or> 2 ^ 31 \<le> v then (Raises OverflowError, w)
      else (Returns (), w\<lparr>exposure := (exposure w)[ccd := v]\<rparr>))"

definition set_exposure_value :: "nat \<Rightarrow> world \<Rightarrow> unit result \<times> world" where
  "set_exposure_value ccd w =
     (case laser_db w of
        None \<Rightarrow> (Raises KeyError, w)
      | Some db \<Rightarrow>
          (if ccd < length (db_exposure db) then spin_set ccd (db_exposure db ! ccd) w
           else (Raises IndexError, w)))"

definition get_min_exposure :: "world \<Rightarrow> unit result \<times> world" where
  "get_min_exposure w =
     (case client w of
        None \<Rightarrow> (Raises AttributeError, w)
      | Some h \<Rightarrow> call h Get_min_exposure w)"

definition get_max_exposure :: "world \<Rightarrow> unit result \<times> world" where
  "get_max_exposure w =
     (case client w of
        None \<Rightarrow> (Raises AttributeError, w)
      | Some h \<Rightarrow> call h Get_max_exposure w)"

fun set_ranges :: "nat list \<Rightarrow> world \<Rightarrow> unit result \<times> world" where
  "set_ranges [] w = (Returns (), w)"
| "set_ranges (ccd # ccds) w =
     andthen (andthen (andthen (get_min_exposure w) (\<lambda>_. get_max_exposure))
                (\<lambda>_. set_exposure_value ccd))
       (\<lambda>_. set_ranges ccds)"

fun update_exposure :: "nat \<Rightarrow> int list \<Rightarrow> world \<Rightarrow> unit result \<times> world" where
  "update_exposure ccd [] w = (Returns (), w)"
| "update_exposure ccd (e # es) w =
     andthen (spin_set ccd e w) (\<lambda>_. update_exposure (Suc ccd) es)"

definition update_widgets :: "world \<Rightarrow> unit result \<times> world" where
  "update_widgets w =
     (case laser_db w of
        None \<Rightarrow> (Raises KeyError, w)
      | Some db \<Rightarrow>
          (let w1 = w\<lparr>fast_mode := db_fast_mode db, auto_exposure := db_auto_exposure db,
                       f_ref := fl (db_f_ref db / 10 ^ 12)\<rparr>
           in case freq_timestamp w1 of
                None \<Rightarrow> (Raises KeyError, w1)
              | Some _ \<Rightarrow>
                  andthen (update_exposure 0 (db_exposure db) w1)
                    (\<lambda>_ w2. case osa_timestamp w2 of
                               None \<Rightarrow> (Raises KeyError, w2)
                             | Some _ \<Rightarrow> (Returns (), w2))))"

definition setConnected :: "bool \<Rightarrow> world \<Rightarrow> unit result \<times> world" where
  "setConnected c w =
     (if \<not> c then (Returns (), w\<lparr>connected := False\<rparr>)
      else
        (case laser_db w of
           None \<Rightarrow> (Raises KeyError, w)
         | Some _ \<Rightarrow>
             andthen (andthen (set_ranges [0 ..< length (exposure w)] w) (\<lambda>_. update_widgets))
               (\<lambda>_ w'. (Returns (), w'\<lparr>connected := True\<rparr>))))"

text \<open>
  The body of the second \<open>try\<close>: the server's entry in the configuration, a new client
  object, \<open>connect_rpc\<close>, \<open>setConnected(True)\<close>.
\<close>

definition connect_rpc :: "nat \<Rightarrow> string \<Rightarrow> nat \<Rightarrow> world \<Rightarrow> unit result \<times> world" where
  "connect_rpc h host port w =
     (let w' = w\<lparr>trace := trace w @ [Connecting h host port]\<rparr> in
      case suspend w' of
        None \<Rightarrow> (Blocks, w')
      | Some (r, w'') \<Rightarrow>
          (if r then (Raises RemoteError, w'')
           else (Returns (), w''\<lparr>trace := trace w'' @ [Opened h]\<rparr>)))"

definition connect :: "world \<Rightarrow> unit result \<times> world" where
  "connect w =
     (case servers w (server w) of
        None \<Rightarrow> (Raises KeyError, w)
      | Some (host, control) \<Rightarrow>
          andthen
            (connect_rpc (next_client w) host control
               (w\<lparr>client := Some (next_client w), next_client := Suc (next_client w)\<rparr>))
            (\<lambda>_. setConnected True))"

definition log_error :: "world \<Rightarrow> world" where
  "log_error w = w\<lparr>trace := trace w @ [Logged (server w)]\<rparr>"

text \<open>One turn of the outer \<open>while\<close>, after its test.\<close>

definition outer_cycle :: "world \<Rightarrow> unit result \<times> world" where
  "outer_cycle w =
     andthen (except_pass (close_rpc (w\<lparr>wake_loop := False\<rparr>)))
       (\<lambda>_ w1.
          if server w1 = [] then andthen (setConnected False w1) (\<lambda>_. wake_wait)
          else
            (case connect w1 of
               (Returns _, w2) \<Rightarrow> inner_loop w2
             | (Raises e, w2) \<Rightarrow> (Returns (), log_error w2)
             | (Blocks, w2) \<Rightarrow> (Blocks, w2)))"

text \<open>
  \<open>LaserDisplay.loop\<close>. A turn of the outer \<open>while\<close> need not suspend the task (an
  unknown server name), so the turns are counted: \<open>Running\<close> is the task after that many
  turns, \<open>Suspended\<close> the task waiting for ever, \<open>Finished\<close> the coroutine having returned,
  \<open>Escaped\<close> an exception having left it.
\<close>

datatype run = Finished | Escaped exn | Suspended | Running

fun loop :: "nat \<Rightarrow> world \<Rightarrow> run \<times> world" where
  "loop 0 w = (Running, w)"
| "loop (Suc n) w =
     (if exit_request w then (Finished, w)
      else
        (case outer_cycle w of
           (Returns _, w') \<Rightarrow> loop n w'
         | (Raises e, w') \<Rightarrow> (Escaped e, w')
         | (Blocks, w') \<Rightarrow> (Suspended, w')))"

section \<open>Reading a trace\<close>

text \<open>
  The kinds the drain has a branch for, and the remote update that stands for an entry of
  the queue: the method of the entry's kind, for \<open>exposure\<close> with the entry's channel.
\<close>

definition known :: "intent \<Rightarrow> bool" where
  "known i \<longleftrightarrow> fst i \<in> {''fast_mode'', ''auto_expose'', ''f_ref'', ''exposure''}"

fun answers :: "effect \<Rightarrow> intent \<Rightarrow> bool" where
  "answers (Call h (Set_fast_mode l b)) i = (fst i = ''fast_mode'')"
| "answers (Call h (Set_auto_exposure l b)) i = (fst i = ''auto_expose'')"
| "answers (Call h (Set_reference_freq l v)) i = (fst i = ''f_ref'')"
| "answers (Call h (Set_exposure l v ccd)) i = (fst i = ''exposure'' \<and> take 1 (snd i) = [ccd])"
| "answers _ i = False"

fun is_request :: "effect \<Rightarrow> bool" where
  "is_request (Call h (Get_freq l a p t b m)) = True"
| "is_request _ = False"

text \<open>What a step has added to the trace.\<close>

definition new_effects :: "world \<Rightarrow> world \<Rightarrow> effect list" where
  "new_effects w w' = drop (length (trace w)) (trace w')"

section \<open>An account of the drain\<close>

lemma arrivals_append [simp]: "arrivals (a @ b) = arrivals a @ arrivals b"
  by (simp add: arrivals_def)

lemma arrivals_Nil [simp]: "arrivals [] = []"
  by (simp add: arrivals_def)

lemma suspend_account:
  "suspend w = Some (r, w') \<Longrightarrow>
     \<exists>s. script w = s # script w' \<and> trace w' = trace w \<and> raises s = r \<and>
         cb_queue w' = cb_queue w @ arrivals [s]"
  by (auto simp: suspend_def arrivals_def cb_queue_fold_events split: list.splits)

lemma call_account:
  assumes "call h X w = (r, w')"
  shows "\<exists>used. script w = used @ script w' \<and> trace w' = trace w @ [Call h X] \<and>
           cb_queue w' = cb_queue w @ arrivals used"
proof (cases "suspend (w\<lparr>trace := trace w @ [Call h X]\<rparr>)")
  case None
  with assms have "w' = w\<lparr>trace := trace w @ [Call h X]\<rparr>"
    by (simp add: call_def)
  then have "script w = [] @ script w' \<and> trace w' = trace w @ [Call h X] \<and>
      cb_queue w' = cb_queue w @ arrivals []"
    by simp
  then show ?thesis by blast
next
  case (Some a)
  then obtain b w1 where s: "suspend (w\<lparr>trace := trace w @ [Call h X]\<rparr>) = Some (b, w1)"
    by (cases a) auto
  with assms have w': "w' = w1" by (simp add: call_def)
  from suspend_account [OF s] obtain s1 where
    "script w = [s1] @ script w1" "trace w1 = trace w @ [Call h X]"
    "cb_queue w1 = cb_queue w @ arrivals [s1]"
    by auto
  with w' show ?thesis by blast
qed

text \<open>
  What one dispatch does: it consumes a stretch of the script, appends to the queue what
  arrived in that stretch, and adds to the trace at most the one call that answers the
  entry. An entry of a known kind that returned has made its call; an entry of another
  kind returns with no call.
\<close>

definition accounted :: "intent \<Rightarrow> unit result \<Rightarrow> world \<Rightarrow> world \<Rightarrow> bool" where
  "accounted c r w w' \<longleftrightarrow>
     (\<exists>used ext. script w = used @ script w' \<and> trace w' = trace w @ ext \<and>
        cb_queue w' = cb_queue w @ arrivals used \<and>
        (if known c then (r \<noteq> Returns () \<and> ext = []) \<or> list_all2 answers ext [c]
         else r = Returns () \<and> ext = []))"

lemma accounted_call:
  "call h X w = (r, w') \<Longrightarrow> known c \<Longrightarrow> answers (Call h X) c \<Longrightarrow> accounted c r w w'"
  unfolding accounted_def by (drule call_account) auto

lemma accounted_raise: "known c \<Longrightarrow> accounted c (Raises e) w w"
  unfolding accounted_def
  by (auto intro!: exI [of _ "[]"])

lemma accounted_skip: "\<not> known c \<Longrightarrow> accounted c (Returns ()) w w"
  unfolding accounted_def
  by (auto intro!: exI [of _ "[]"])

lemma dispatch_accounted: "dispatch c w = (r, w') \<Longrightarrow> accounted c r w w'"
proof -
  assume d: "dispatch c w = (r, w')"
  consider (fm) "fst c = ''fast_mode''" | (ae) "fst c = ''auto_expose''" | (fr) "fst c = ''f_ref''"
    | (ex) "fst c = ''exposure''" | (un) "\<not> known c"
    by (auto simp: known_def)
  then show ?thesis
  proof cases
    case fm
    then have k: "known c" by (simp add: known_def)
    from d fm have "fast_mode_cb w = (r, w')"
      by (auto simp: dispatch_def andthen_def split: prod.splits result.splits)
    with k fm show ?thesis
      by (auto simp: fast_mode_cb_def split: option.splits
          intro: accounted_raise accounted_call)
  next
    case ae
    then have k: "known c" by (simp add: known_def)
    from d ae have "auto_expose_cb w = (r, w')"
      by (auto simp: dispatch_def andthen_def split: prod.splits result.splits)
    with k ae show ?thesis
      by (auto simp: auto_expose_cb_def split: option.splits
          intro: accounted_raise accounted_call)
  next
    case fr
    then have k: "known c" by (simp add: known_def)
    from d fr have "f_ref_cb w = (r, w')"
      by (auto simp: dispatch_def andthen_def split: prod.splits result.splits)
    with k fr show ?thesis
      by (auto simp: f_ref_cb_def split: option.splits
          intro: accounted_raise accounted_call)
  next
    case ex
    then have k: "known c" by (simp add: known_def)
    show ?thesis
    proof (cases "snd c")
      case Nil
      with d ex have "r = Raises IndexError" "w' = w"
        by (auto simp: dispatch_def andthen_def)
      with k show ?thesis by (simp add: accounted_raise)
    next
      case (Cons ccd rest)
      with d ex have "exposure_cb ccd w = (r, w')"
        by (auto simp: dispatch_def andthen_def)
      with k ex Cons show ?thesis
        by (auto simp: exposure_cb_def split: option.splits
            intro: accounted_raise accounted_call)
    qed
  next
    case un
    then have "fst c \<noteq> ''fast_mode''" "fst c \<noteq> ''auto_expose''" "fst c \<noteq> ''f_ref''"
      "fst c \<noteq> ''exposure''"
      by (auto simp: known_def)
    with d have "r = Returns ()" "w' = w"
      by (auto simp: dispatch_def andthen_def)
    with un show ?thesis by (simp add: accounted_skip)
  qed
qed


lemma del_first_Cons: "cb_queue w = c # q \<Longrightarrow> del_first w = (Returns (), w\<lparr>cb_queue := q\<rparr>)"
  by (simp add: del_first_def)

lemma drain_Nil: "cb_queue w = [] \<Longrightarrow> drain w = (Returns (), w)"
  by (simp add: drain.simps)

lemma drain_Cons:
  "cb_queue w = c # q \<Longrightarrow>
     drain w = andthen (andthen (dispatch c w) (\<lambda>_. del_first)) (\<lambda>_. drain)"
  by (simp add: drain.simps)

text \<open>
  What a drain does, whatever its result: \<open>done\<close> are the entries dispatched and
  deleted, in the order of the queue and of their arrival; the calls made answer the known
  ones among them, one call each in the same order, followed by the call of the entry at
  which the drain stopped, if that entry got as far as its call.
\<close>

definition drained :: "unit result \<Rightarrow> world \<Rightarrow> world \<Rightarrow> bool" where
  "drained r w w' \<longleftrightarrow>
     (\<exists>used ext done att.
        script w = used @ script w' \<and> trace w' = trace w @ ext \<and>
        cb_queue w @ arrivals used = done @ cb_queue w' \<and>
        list_all2 answers ext (filter known done @ att) \<and>
        (r = Returns () \<longrightarrow> cb_queue w' = [] \<and> att = []) \<and>
        (r \<noteq> Returns () \<longrightarrow> cb_queue w' \<noteq> []) \<and>
        (att = [] \<or> (known (hd (cb_queue w')) \<and> att = [hd (cb_queue w')] \<and> r \<noteq> Returns ())))"

lemma drained_stop:
  assumes q: "cb_queue w = c # q" and a: "accounted c r w w'" and r: "r \<noteq> Returns ()"
  shows "drained r w w'"
proof -
  from a obtain used ext where u: "script w = used @ script w'" "trace w' = trace w @ ext"
    "cb_queue w' = cb_queue w @ arrivals used"
    and k: "if known c then (r \<noteq> Returns () \<and> ext = []) \<or> list_all2 answers ext [c]
         else r = Returns () \<and> ext = []"
    unfolding accounted_def by blast
  from k r have kc: "known c" by (auto split: if_splits)
  from u q have hd: "hd (cb_queue w') = c" "cb_queue w' \<noteq> []" by simp_all
  from k kc have "ext = [] \<or> list_all2 answers ext [c]" by auto
  then have "\<exists>att. list_all2 answers ext (filter known [] @ att) \<and> (att = [] \<or> att = [c])"
    by auto
  then obtain att where att: "list_all2 answers ext (filter known [] @ att)" "att = [] \<or> att = [c]"
    by blast
  have "cb_queue w @ arrivals used = [] @ cb_queue w'" using u by simp
  with u att hd kc r show ?thesis
    unfolding drained_def by blast
qed

lemma drained_step:
  assumes q: "cb_queue w = c # q" and a: "accounted c (Returns ()) w w1"
    and d: "drained r (w1\<lparr>cb_queue := tl (cb_queue w1)\<rparr>) w'"
  shows "drained r w w'"
proof -
  from a obtain used1 ext1 where u1: "script w = used1 @ script w1" "trace w1 = trace w @ ext1"
    "cb_queue w1 = cb_queue w @ arrivals used1"
    and k1: "list_all2 answers ext1 (filter known [c])"
    unfolding accounted_def by (auto split: if_splits)
  from d obtain used2 ext2 done2 att where
    u2: "script w1 = used2 @ script w'" "trace w' = trace w1 @ ext2"
      "tl (cb_queue w1) @ arrivals used2 = done2 @ cb_queue w'"
    and k2: "list_all2 answers ext2 (filter known done2 @ att)"
    and fin: "r = Returns () \<longrightarrow> cb_queue w' = [] \<and> att = []"
      "r \<noteq> Returns () \<longrightarrow> cb_queue w' \<noteq> []"
      "att = [] \<or> (known (hd (cb_queue w')) \<and> att = [hd (cb_queue w')] \<and> r \<noteq> Returns ())"
    unfolding drained_def by auto
  have s: "script w = (used1 @ used2) @ script w'" using u1 u2 by simp
  have t: "trace w' = trace w @ (ext1 @ ext2)" using u1 u2 by simp
  have qq: "cb_queue w @ arrivals (used1 @ used2) = (c # done2) @ cb_queue w'"
    using u1 u2 q by simp
  have "list_all2 answers (ext1 @ ext2) (filter known [c] @ (filter known done2 @ att))"
    using k1 k2 by (rule list_all2_appendI)
  moreover have "filter known [c] @ (filter known done2 @ att) = filter known (c # done2) @ att"
    by simp
  ultimately have l: "list_all2 answers (ext1 @ ext2) (filter known (c # done2) @ att)"
    by (simp only:)
  from s t qq l fin show ?thesis
    unfolding drained_def by blast
qed

lemma drain_drained: "drain w = (r, w') \<Longrightarrow> drained r w w'"
proof (induction w arbitrary: r w' rule: drain.induct)
  case (1 w)
  show ?case
  proof (cases "cb_queue w")
    case Nil
    with "1.prems" have "r = Returns ()" "w' = w" by (simp_all add: drain_Nil)
    moreover have "script w = [] @ script w" "trace w = trace w @ []"
      "cb_queue w @ arrivals [] = [] @ cb_queue w" "list_all2 answers [] (filter known [] @ [])"
      by simp_all
    ultimately show ?thesis
      unfolding drained_def using Nil by blast
  next
    case (Cons c q)
    obtain rd wd where disp: "dispatch c w = (rd, wd)" by (cases "dispatch c w")
    from dispatch_accounted [OF disp] have acc: "accounted c rd w wd" .
    show ?thesis
    proof (cases "rd = Returns ()")
      case False
      with disp "1.prems" Cons have "r = rd" "w' = wd"
        by (auto simp: drain_Cons andthen_def split: result.splits)
      with acc False Cons show ?thesis by (simp add: drained_stop)
    next
      case True
      from acc True have qd: "cb_queue wd = c # q @ arrivals (take (length (script w) - length (script wd)) (script w))"
        unfolding accounted_def using Cons by auto
      let ?w1 = "wd\<lparr>cb_queue := tl (cb_queue wd)\<rparr>"
      from qd have del: "del_first wd = (Returns (), ?w1)"
        by (simp add: del_first_def)
      with disp True have turn: "andthen (dispatch c w) (\<lambda>_. del_first) = (Returns (), ?w1)"
        by (simp add: andthen_def)
      with "1.prems" Cons have "drain ?w1 = (r, w')"
        by (simp add: drain_Cons andthen_def)
      from "1.IH" [OF Cons turn this] have "drained r ?w1 w'" .
      with Cons acc True show ?thesis by (auto intro: drained_step)
    qed
  qed
qed

section \<open>Traces of the refresh and of the inner cycle\<close>

lemma new_effects_append [simp]: "trace w' = trace w @ ext \<Longrightarrow> new_effects w w' = ext"
  by (simp add: new_effects_def)

lemma new_effects_wake [simp]: "new_effects (w\<lparr>wake_loop := b\<rparr>) w' = new_effects w w'"
  by (simp add: new_effects_def)

lemma answers_not_request: "answers e i \<Longrightarrow> \<not> is_request e"
  by (induction e i rule: answers.induct) simp_all

lemma list_all2_answers_no_request: "list_all2 answers ext is \<Longrightarrow> \<not> list_ex is_request ext"
  by (induction ext "is" rule: list_all2_induct) (auto dest: answers_not_request)

lemma drain_trace:
  "drain w = (r, w') \<Longrightarrow> \<exists>ext. trace w' = trace w @ ext \<and> \<not> list_ex is_request ext"
  by (drule drain_drained) (auto simp: drained_def dest: list_all2_answers_no_request)

lemma suspend_trace: "suspend w = Some (r, w') \<Longrightarrow> trace w' = trace w"
  by (auto simp: suspend_def split: list.splits)

lemma call_trace: "call h c w = (r, w') \<Longrightarrow> trace w' = trace w @ [Call h c]"
  by (auto simp: call_def Let_def split: option.splits dest!: suspend_trace)

lemma sleep_trace: "sleep d w = (r, w') \<Longrightarrow> trace w' = trace w @ [Slept d]"
  by (auto simp: sleep_def Let_def split: option.splits dest!: suspend_trace)

lemma wait_for_wake_trace: "wait_for_wake d w = (r, w') \<Longrightarrow> trace w' = trace w @ [Waited d]"
  by (auto simp: wait_for_wake_def Let_def split: option.splits dest!: suspend_trace)

text \<open>The request of \<open>refresh\<close>, and when it is made.\<close>

lemma refresh_trace:
  assumes "client w = Some h" "freq_timestamp w = Some ft" "osa_timestamp w = Some ot"
  shows "trace (snd (refresh w)) = trace w @
     (if next_measurement_in (data_timestamp ft ot)
           (if fast_mode w then poll_time_fast w else poll_time w) (clock w) \<le> 0
      then [Call h (Get_freq (laser w) (if fast_mode w then poll_time_fast w else poll_time w)
              (if fast_mode w then FAST_MODE_PRIORITY else REGULAR_UPDATE_PRIORITY) True True True)]
      else [])"
proof -
  have c: "trace (snd (andthen (call h X w) (\<lambda>_ w'. (Returns p, w')))) = trace w @ [Call h X]" for X p
    by (cases "call h X w") (auto simp: andthen_def split: result.splits dest: call_trace)
  show ?thesis
    using assms by (simp add: refresh_def Let_def get_freq_def c)
qed

lemma refresh_no_timestamp:
  "freq_timestamp w = None \<or> osa_timestamp w = None \<Longrightarrow> refresh w = (Raises KeyError, w)"
  by (auto simp: refresh_def Let_def split: option.splits)

text \<open>The trace of one turn of the inner cycle.\<close>

lemma inner_cycle_trace:
  assumes d: "drain (w\<lparr>wake_loop := False\<rparr>) = (rd, w1)"
  shows "\<exists>ext tl. trace w1 = trace w @ ext \<and> \<not> list_ex is_request ext \<and> \<not> list_ex is_request tl \<and>
           trace (snd (inner_cycle w)) =
             trace w @ ext @ (if rd = Returns () then new_effects w1 (snd (refresh w1)) else []) @ tl"
proof -
  from drain_trace [OF d] obtain ext where ext: "trace w1 = trace w @ ext" "\<not> list_ex is_request ext"
    by auto
  show ?thesis
  proof (cases "rd = Returns ()")
    case True
    obtain rr w2 where r: "refresh w1 = (rr, w2)" by (cases "refresh w1")
    from refresh_quiet [OF r] obtain req where req: "trace w2 = trace w1 @ req"
      by (auto simp: quiet_def)
    then have ne: "new_effects w1 (snd (refresh w1)) = req" using r by simp
    have "\<exists>tl. \<not> list_ex is_request tl \<and> trace (snd (inner_cycle w)) = trace w2 @ tl"
    proof (cases rr)
      case (Returns t)
      obtain r3 w3 where w: "wait_for_wake t w2 = (r3, w3)" by (cases "wait_for_wake t w2")
      from wait_for_wake_trace [OF w] have "trace w3 = trace w2 @ [Waited t]" .
      moreover from d True r Returns w have "inner_cycle w = (r3, w3)"
        by (simp add: inner_cycle_def andthen_def)
      ultimately have "\<not> list_ex is_request [Waited t] \<and> trace (snd (inner_cycle w)) = trace w2 @ [Waited t]"
        by simp
      then show ?thesis by blast
    next
      case (Raises e)
      obtain r3 w3 where w: "sleep (1 / 10) w2 = (r3, w3)" by (cases "sleep (1 / 10) w2")
      from sleep_trace [OF w] have "trace w3 = trace w2 @ [Slept (1 / 10)]" .
      moreover from d True r Raises w have "inner_cycle w = (r3, w3)"
        by (simp add: inner_cycle_def andthen_def)
      ultimately have "\<not> list_ex is_request [Slept (1 / 10)] \<and>
          trace (snd (inner_cycle w)) = trace w2 @ [Slept (1 / 10)]"
        by simp
      then show ?thesis by blast
    next
      case Blocks
      with d True r have "inner_cycle w = (Blocks, w2)"
        by (simp add: inner_cycle_def andthen_def)
      then have "\<not> list_ex is_request [] \<and> trace (snd (inner_cycle w)) = trace w2 @ []"
        by simp
      then show ?thesis by blast
    qed
    then obtain tl where "\<not> list_ex is_request tl" "trace (snd (inner_cycle w)) = trace w2 @ tl"
      by blast
    with ext req ne True show ?thesis by auto
  next
    case False
    have "\<exists>tl. \<not> list_ex is_request tl \<and> trace (snd (inner_cycle w)) = trace w1 @ tl"
    proof (cases rd)
      case (Returns u)
      with False show ?thesis by simp
    next
      case (Raises e)
      obtain r3 w3 where w: "sleep (1 / 10) w1 = (r3, w3)" by (cases "sleep (1 / 10) w1")
      from sleep_trace [OF w] have "trace w3 = trace w1 @ [Slept (1 / 10)]" .
      moreover from d Raises w have "inner_cycle w = (r3, w3)"
        by (simp add: inner_cycle_def andthen_def)
      ultimately have "\<not> list_ex is_request [Slept (1 / 10)] \<and>
          trace (snd (inner_cycle w)) = trace w1 @ [Slept (1 / 10)]"
        by simp
      then show ?thesis by blast
    next
      case Blocks
      with d have "inner_cycle w = (Blocks, w1)"
        by (simp add: inner_cycle_def andthen_def)
      then have "\<not> list_ex is_request [] \<and> trace (snd (inner_cycle w)) = trace w1 @ []"
        by simp
      then show ?thesis by blast
    qed
    then obtain tl where "\<not> list_ex is_request tl" "trace (snd (inner_cycle w)) = trace w1 @ tl"
      by blast
    with ext False show ?thesis by auto
  qed
qed

lemma inner_cycle_requests:
  assumes d: "drain (w\<lparr>wake_loop := False\<rparr>) = (rd, w1)"
  shows "list_ex is_request (new_effects w (snd (inner_cycle w))) =
           (rd = Returns () \<and> list_ex is_request (new_effects w1 (snd (refresh w1))))"
proof -
  from inner_cycle_trace [OF d] obtain ext tl where
    "\<not> list_ex is_request ext" "\<not> list_ex is_request tl"
    "trace (snd (inner_cycle w)) =
       trace w @ ext @ (if rd = Returns () then new_effects w1 (snd (refresh w1)) else []) @ tl"
    by blast
  then show ?thesis
    by (auto simp: new_effects_def list_ex_iff)
qed


section \<open>A display to run the definitions on\<close>

text \<open>
  A connected display with an empty queue, regular mode, a poll time of five seconds (one
  second in fast mode), and nothing left in the script.
\<close>

definition display0 :: world where
  "display0 = \<lparr>laser = ''blue'', server = ''lab'', client = Some 0, next_client = 1,
     cb_queue = [], wake_loop = False, fast_mode = False, auto_exposure = False, f_ref = 0,
     exposure = [1, 1], connected = True, exit_request = False, freq_timestamp = Some 100,
     osa_timestamp = Some 103,
     laser_db = Some \<lparr>db_fast_mode = False, db_auto_exposure = False, db_f_ref = 0,
       db_exposure = [1, 1]\<rparr>,
     servers = [''lab'' \<mapsto> (''wlm'', 3251)], poll_time = 5, poll_time_fast = 1,
     strict_close = True, clock = 104, script = [], trace = []\<rparr>"

text \<open>Stretches of the script: the awaited call returns or raises, nothing else happens.\<close>

definition returns :: suspension where
  "returns = \<lparr>events = [], raises = False\<rparr>"

definition fails :: suspension where
  "fails = \<lparr>events = [], raises = True\<rparr>"

text \<open>
  Modelled from the spec: the server's scheduling of measurement requests is not part of
  \<open>gui.py\<close>. The spec says that the fast-mode priority outranks the regular one; with the
  two constants of \<open>gui.py\<close> that is the order in which the request with the smaller
  number is served first.
\<close>

definition outranks :: "int \<Rightarrow> int \<Rightarrow> bool" where
  "outranks p q \<longleftrightarrow> p < q"

section \<open>The staleness clock\<close>

lemma next_measurement_in_le0:
  "double now \<Longrightarrow> next_measurement_in t p now \<le> 0 \<longleftrightarrow> data_expiry t p \<le> Finite now"
  unfolding next_measurement_in_def data_expiry_def by (rule fsub_le0) (rule grid_double)

lemma next_measurement_in_exact:
  assumes "double now" "double (t + p)"
  shows "next_measurement_in t p now \<le> 0 \<longleftrightarrow> p \<le> now - t"
proof -
  from assms(2) have "data_expiry t p = Finite (t + p)"
    by (simp add: data_expiry_def round64_double)
  with next_measurement_in_le0 [OF assms(1), of t p] show ?thesis by auto
qed

lemma next_measurement_in_mono_now:
  "now \<le> now' \<Longrightarrow> next_measurement_in t p now' \<le> next_measurement_in t p now"
  unfolding next_measurement_in_def by (rule fsub_mono_right)

lemma next_measurement_in_mono_ts:
  "t \<le> t' \<Longrightarrow> next_measurement_in t p now \<le> next_measurement_in t' p now"
  unfolding next_measurement_in_def data_expiry_def
  by (intro fsub_mono_left round64_mono) simp




lemma min_due:
  "(next_measurement_in (data_timestamp t1 t2) p now \<le> 0) =
     (next_measurement_in t1 p now \<le> 0 \<or> next_measurement_in t2 p now \<le> 0)"
proof
  assume "next_measurement_in (data_timestamp t1 t2) p now \<le> 0"
  then show "next_measurement_in t1 p now \<le> 0 \<or> next_measurement_in t2 p now \<le> 0"
    by (cases "t1 \<le> t2") (simp_all add: data_timestamp_def min_def)
next
  assume "next_measurement_in t1 p now \<le> 0 \<or> next_measurement_in t2 p now \<le> 0"
  then show "next_measurement_in (data_timestamp t1 t2) p now \<le> 0"
  proof
    assume a: "next_measurement_in t1 p now \<le> 0"
    have "next_measurement_in (data_timestamp t1 t2) p now \<le> next_measurement_in t1 p now"
      by (rule next_measurement_in_mono_ts) (simp add: data_timestamp_def)
    then show ?thesis using a by (rule pyfloat_le_trans)
  next
    assume a: "next_measurement_in t2 p now \<le> 0"
    have "next_measurement_in (data_timestamp t1 t2) p now \<le> next_measurement_in t2 p now"
      by (rule next_measurement_in_mono_ts) (simp add: data_timestamp_def)
    then show ?thesis using a by (rule pyfloat_le_trans)
  qed
qed

text \<open>
  C2. The timestamp that governs staleness is the smaller of the timestamp of the
  frequency measurement and that of the trace: with \<open>t1 < t2\<close> the time until due is the
  one computed from \<open>t1\<close>, a refresh is due as soon as it is due for either timestamp, and
  the loop's refresh requests a measurement exactly when the time until due computed from
  one of the two cached timestamps is at most zero.
\<close>

theorem earlier_timestamp_governs:
  "data_timestamp t1 t2 = min t1 t2 \<and>
   (t1 < t2 \<longrightarrow> next_measurement_in (data_timestamp t1 t2) p now = next_measurement_in t1 p now) \<and>
   ((next_measurement_in (data_timestamp t1 t2) p now \<le> 0) =
      (next_measurement_in t1 p now \<le> 0 \<or> next_measurement_in t2 p now \<le> 0)) \<and>
   (client w = Some h \<longrightarrow> freq_timestamp w = Some ft \<longrightarrow> osa_timestamp w = Some ot \<longrightarrow>
      list_ex is_request (new_effects w (snd (refresh w))) =
        (next_measurement_in ft (if fast_mode w then poll_time_fast w else poll_time w) (clock w) \<le> 0 \<or>
         next_measurement_in ot (if fast_mode w then poll_time_fast w else poll_time w) (clock w) \<le> 0))"
proof -
  have a: "data_timestamp t1 t2 = min t1 t2"
    by (simp add: data_timestamp_def)
  have b: "t1 < t2 \<longrightarrow>
      next_measurement_in (data_timestamp t1 t2) p now = next_measurement_in t1 p now"
    by (simp add: data_timestamp_def)
  have d: "list_ex is_request (new_effects w (snd (refresh w))) =
        (next_measurement_in ft (if fast_mode w then poll_time_fast w else poll_time w) (clock w) \<le> 0 \<or>
         next_measurement_in ot (if fast_mode w then poll_time_fast w else poll_time w) (clock w) \<le> 0)"
    if h: "client w = Some h" "freq_timestamp w = Some ft" "osa_timestamp w = Some ot"
  proof -
    let ?p = "if fast_mode w then poll_time_fast w else poll_time w"
    have "list_ex is_request (new_effects w (snd (refresh w))) =
        (next_measurement_in (data_timestamp ft ot) ?p (clock w) \<le> 0)"
      using refresh_trace [OF h] by simp
    also have "\<dots> = (next_measurement_in ft ?p (clock w) \<le> 0 \<or>
        next_measurement_in ot ?p (clock w) \<le> 0)"
      by (rule min_due)
    finally show ?thesis .
  qed
  from a b min_due d show ?thesis by blast
qed

theorem earlier_timestamp_governs_witness:
  "client display0 = Some 0 \<and> freq_timestamp (display0\<lparr>clock := 106\<rparr>) = Some 100 \<and>
   osa_timestamp (display0\<lparr>clock := 106\<rparr>) = Some 103 \<and>
   data_timestamp 100 103 = 100 \<and>
   next_measurement_in (data_timestamp 100 103) 5 106 = next_measurement_in 100 5 106 \<and>
   next_measurement_in 100 5 106 = Finite (- 1) \<and>
   next_measurement_in 103 5 106 = Finite 2 \<and>
   list_ex is_request (new_effects (display0\<lparr>clock := 106\<rparr>) (snd (refresh (display0\<lparr>clock := 106\<rparr>))))"
proof -
  let ?w = "display0\<lparr>clock := 106\<rparr>"
  have h: "client ?w = Some 0" "freq_timestamp ?w = Some 100" "osa_timestamp ?w = Some 103"
    by (simp_all add: display0_def)
  have v: "next_measurement_in 100 5 106 = Finite (- 1)"
    "next_measurement_in 103 5 106 = Finite 2"
    by (simp_all add: next_measurement_in_def data_expiry_def)
  have f: "fast_mode ?w = False" "poll_time ?w = 5" "clock ?w = 106"
    by (simp_all add: display0_def)
  note inst = earlier_timestamp_governs [of 100 103 5 106 ?w 0 100 103]
  have lt: "(100::real) < 103" by simp
  from inst have a: "data_timestamp 100 103 = min 100 103" by blast
  from inst lt have b: "next_measurement_in (data_timestamp 100 103) 5 106 = next_measurement_in 100 5 106"
    by blast
  from inst h have "list_ex is_request (new_effects ?w (snd (refresh ?w))) =
      (next_measurement_in 100 (if fast_mode ?w then poll_time_fast ?w else poll_time ?w) (clock ?w) \<le> 0 \<or>
       next_measurement_in 103 (if fast_mode ?w then poll_time_fast ?w else poll_time ?w) (clock ?w) \<le> 0)"
    by blast
  then have c: "list_ex is_request (new_effects ?w (snd (refresh ?w)))"
    unfolding f by (simp add: v zero_pyfloat_def)
  from a have a': "data_timestamp 100 103 = 100" by simp
  from h a' b v c show ?thesis by (simp add: display0_def)
qed

section \<open>Poll time and priority\<close>

lemma refresh_returns:
  assumes "refresh w = (Returns t, w')" "freq_timestamp w = Some ft" "osa_timestamp w = Some ot"
  shows "t = (let p = (if fast_mode w then poll_time_fast w else poll_time w);
                  v = next_measurement_in (data_timestamp ft ot) p (clock w)
              in if v \<le> 0 then Finite p else v)"
  using assms
  by (auto simp: refresh_def Let_def andthen_def split: if_splits prod.splits result.splits)

text \<open>
  C9. With the fast-mode box checked the refresh tests staleness against the fast poll
  time, asks for data of at most that age with \<open>FAST_MODE_PRIORITY\<close>, and waits that long
  afterwards; unchecked, the same with the regular poll time and
  \<open>REGULAR_UPDATE_PRIORITY\<close>. The two priorities differ and the fast one outranks the
  regular one.
\<close>

theorem fast_mode_poll_and_priority:
  assumes "client w = Some h" "freq_timestamp w = Some ft" "osa_timestamp w = Some ot"
  shows "(fast_mode w \<longrightarrow>
           new_effects w (snd (refresh w)) =
             (if next_measurement_in (data_timestamp ft ot) (poll_time_fast w) (clock w) \<le> 0
              then [Call h (Get_freq (laser w) (poll_time_fast w) FAST_MODE_PRIORITY True True True)]
              else []) \<and>
           (\<forall>t w'. refresh w = (Returns t, w') \<longrightarrow>
              t = (if next_measurement_in (data_timestamp ft ot) (poll_time_fast w) (clock w) \<le> 0
                   then Finite (poll_time_fast w)
                   else next_measurement_in (data_timestamp ft ot) (poll_time_fast w) (clock w)))) \<and>
         (\<not> fast_mode w \<longrightarrow>
           new_effects w (snd (refresh w)) =
             (if next_measurement_in (data_timestamp ft ot) (poll_time w) (clock w) \<le> 0
              then [Call h (Get_freq (laser w) (poll_time w) REGULAR_UPDATE_PRIORITY True True True)]
              else []) \<and>
           (\<forall>t w'. refresh w = (Returns t, w') \<longrightarrow>
              t = (if next_measurement_in (data_timestamp ft ot) (poll_time w) (clock w) \<le> 0
                   then Finite (poll_time w)
                   else next_measurement_in (data_timestamp ft ot) (poll_time w) (clock w)))) \<and>
         outranks FAST_MODE_PRIORITY REGULAR_UPDATE_PRIORITY \<and>
         FAST_MODE_PRIORITY \<noteq> REGULAR_UPDATE_PRIORITY"
proof -
  have o: "outranks FAST_MODE_PRIORITY REGULAR_UPDATE_PRIORITY"
    "FAST_MODE_PRIORITY \<noteq> REGULAR_UPDATE_PRIORITY"
    by (simp_all add: outranks_def FAST_MODE_PRIORITY_def REGULAR_UPDATE_PRIORITY_def)
  show ?thesis
  proof (cases "fast_mode w")
    case True
    with refresh_trace [OF assms] refresh_returns [OF _ assms(2,3)] o show ?thesis
      by (auto simp: Let_def)
  next
    case False
    with refresh_trace [OF assms] refresh_returns [OF _ assms(2,3)] o show ?thesis
      by (auto simp: Let_def)
  qed
qed

theorem fast_mode_poll_and_priority_witness:
  "new_effects (display0\<lparr>clock := 106, fast_mode := True\<rparr>)
       (snd (refresh (display0\<lparr>clock := 106, fast_mode := True\<rparr>))) =
     [Call 0 (Get_freq ''blue'' 1 2 True True True)] \<and>
   new_effects (display0\<lparr>clock := 106\<rparr>) (snd (refresh (display0\<lparr>clock := 106\<rparr>))) =
     [Call 0 (Get_freq ''blue'' 5 3 True True True)]"
proof -
  let ?f = "display0\<lparr>clock := 106, fast_mode := True\<rparr>"
  let ?r = "display0\<lparr>clock := 106\<rparr>"
  have hf: "client ?f = Some 0" "freq_timestamp ?f = Some 100" "osa_timestamp ?f = Some 103"
    by (simp_all add: display0_def)
  have hr: "client ?r = Some 0" "freq_timestamp ?r = Some 100" "osa_timestamp ?r = Some 103"
    by (simp_all add: display0_def)
  from fast_mode_poll_and_priority [OF hf]
  have a: "new_effects ?f (snd (refresh ?f)) = [Call 0 (Get_freq ''blue'' 1 2 True True True)]"
    by (simp add: display0_def data_timestamp_def next_measurement_in_def data_expiry_def
        FAST_MODE_PRIORITY_def zero_pyfloat_def)
  from fast_mode_poll_and_priority [OF hr]
  have b: "new_effects ?r (snd (refresh ?r)) = [Call 0 (Get_freq ''blue'' 5 3 True True True)]"
    by (simp add: display0_def data_timestamp_def next_measurement_in_def data_expiry_def
        REGULAR_UPDATE_PRIORITY_def zero_pyfloat_def)
  from a b show ?thesis by simp
qed

section \<open>The drain, entry by entry\<close>

text \<open>
  C10. An entry at the head of the queue whose kind is none of \<open>fast_mode\<close>,
  \<open>auto_expose\<close>, \<open>f_ref\<close>, \<open>exposure\<close> is dispatched without any call, without
  suspension and without an exception, it is deleted, and the drain goes on with the
  entries behind it.
\<close>

theorem unknown_kind_discarded:
  assumes "fst c \<notin> {''fast_mode'', ''auto_expose'', ''f_ref'', ''exposure''}"
    and "cb_queue w = c # q"
  shows "dispatch c w = (Returns (), w) \<and>
         andthen (dispatch c w) (\<lambda>_. del_first) = (Returns (), w\<lparr>cb_queue := q\<rparr>) \<and>
         drain w = drain (w\<lparr>cb_queue := q\<rparr>)"
proof -
  from assms(1) have d: "dispatch c w = (Returns (), w)"
    by (simp add: dispatch_def andthen_def)
  with assms(2) have t: "andthen (dispatch c w) (\<lambda>_. del_first) = (Returns (), w\<lparr>cb_queue := q\<rparr>)"
    by (simp add: andthen_def del_first_def)
  with assms(2) have "drain w = drain (w\<lparr>cb_queue := q\<rparr>)"
    by (simp add: drain_Cons andthen_def)
  with d t show ?thesis by simp
qed

theorem unknown_kind_discarded_witness:
  "drain (display0\<lparr>cb_queue := [(''lock'', []), (''fast_mode'', [])], script := [returns]\<rparr>) =
     (Returns (), display0\<lparr>trace := [Call 0 (Set_fast_mode ''blue'' False)]\<rparr>)"
proof -
  let ?w = "display0\<lparr>cb_queue := [(''lock'', []), (''fast_mode'', [])], script := [returns]\<rparr>"
  have "fst (''lock'', []::int list) \<notin> {''fast_mode'', ''auto_expose'', ''f_ref'', ''exposure''}"
    by simp
  moreover have "cb_queue ?w = (''lock'', []) # [(''fast_mode'', [])]"
    by (simp add: display0_def)
  ultimately have "drain ?w = drain (?w\<lparr>cb_queue := [(''fast_mode'', [])]\<rparr>)"
    using unknown_kind_discarded [of "(''lock'', [])" ?w "[(''fast_mode'', [])]"] by blast
  also have "\<dots> = (Returns (), display0\<lparr>trace := [Call 0 (Set_fast_mode ''blue'' False)]\<rparr>)"
    by (simp add: drain_Cons drain_Nil display0_def dispatch_def andthen_def fast_mode_cb_def
        call_def suspend_def returns_def del_first_def)
  finally show ?thesis .
qed

text \<open>The kind of entry that a call of the trace stands for.\<close>

fun method_kind :: "effect \<Rightarrow> string" where
  "method_kind (Call h (Set_fast_mode l b)) = ''fast_mode''"
| "method_kind (Call h (Set_auto_exposure l b)) = ''auto_expose''"
| "method_kind (Call h (Set_reference_freq l v)) = ''f_ref''"
| "method_kind (Call h (Set_exposure l v ccd)) = ''exposure''"
| "method_kind _ = []"

definition calls_of_kind :: "string \<Rightarrow> effect list \<Rightarrow> effect list" where
  "calls_of_kind k tr = filter (\<lambda>e. method_kind e = k) tr"

definition entries_of_kind :: "string \<Rightarrow> intent list \<Rightarrow> intent list" where
  "entries_of_kind k q = filter (\<lambda>i. fst i = k) q"

lemma answers_kind: "answers e i \<Longrightarrow> method_kind e = fst i"
  by (induction e i rule: answers.induct) simp_all

lemma list_all2_answers_kinds: "list_all2 answers ext is \<Longrightarrow> map method_kind ext = map fst is"
  by (induction ext "is" rule: list_all2_induct) (auto dest: answers_kind)

lemma drain_prefix:
  assumes "drain w = (r, w')"
  shows "\<exists>used ext. script w = used @ script w' \<and> trace w' = trace w @ ext \<and>
      list_all2 answers ext (take (length ext) (filter known (cb_queue w @ arrivals used))) \<and>
      (r = Returns () \<longrightarrow> cb_queue w' = [] \<and>
         length ext = length (filter known (cb_queue w @ arrivals used)))"
proof -
  from drain_drained [OF assms] obtain used ext "done" att where
    s: "script w = used @ script w'" and t: "trace w' = trace w @ ext"
    and q: "cb_queue w @ arrivals used = done @ cb_queue w'"
    and l: "list_all2 answers ext (filter known done @ att)"
    and f: "r = Returns () \<longrightarrow> cb_queue w' = [] \<and> att = []" "r \<noteq> Returns () \<longrightarrow> cb_queue w' \<noteq> []"
    and a: "att = [] \<or> (known (hd (cb_queue w')) \<and> att = [hd (cb_queue w')] \<and> r \<noteq> Returns ())"
    unfolding drained_def by blast
  from l have len: "length ext = length (filter known done @ att)"
    by (rule list_all2_lengthD)
  have "\<exists>rest. filter known (cb_queue w') = att @ rest"
  proof (cases "att = []")
    case True
    then show ?thesis by simp
  next
    case False
    with a f obtain c rest where "cb_queue w' = c # rest" "known c" "att = [c]"
      by (cases "cb_queue w'") auto
    then show ?thesis by simp
  qed
  then obtain rest where "filter known (cb_queue w') = att @ rest" ..
  then have "filter known (cb_queue w @ arrivals used) = (filter known done @ att) @ rest"
    unfolding q by simp
  with len have tk: "take (length ext) (filter known (cb_queue w @ arrivals used)) = filter known done @ att"
    by simp
  have "r = Returns () \<longrightarrow> cb_queue w' = [] \<and>
         length ext = length (filter known (cb_queue w @ arrivals used))"
    using f len q by auto
  with s t l tk show ?thesis by (metis (no_types))
qed

lemmas run_simps = drain_Cons drain_Nil dispatch_def andthen_def fast_mode_cb_def
  auto_expose_cb_def f_ref_cb_def exposure_cb_def py_index_def call_def suspend_def
  returns_def fails_def del_first_def







text \<open>
  C5, as stated, fails: two pending \<open>f_ref\<close> entries are drained into two calls of
  \<open>set_reference_freq\<close>, not one.
\<close>

theorem duplicates_collapse_counterexample:
  "drain (display0\<lparr>cb_queue := [(''f_ref'', []), (''f_ref'', [])], script := [returns, returns]\<rparr>) =
     (Returns (),
      display0\<lparr>trace := [Call 0 (Set_reference_freq ''blue'' (Finite 0)),
                          Call 0 (Set_reference_freq ''blue'' (Finite 0))]\<rparr>) \<and>
   length (calls_of_kind ''f_ref''
     (trace (snd (drain (display0\<lparr>cb_queue := [(''f_ref'', []), (''f_ref'', [])],
        script := [returns, returns]\<rparr>))))) \<noteq> 1"
proof -
  have d: "drain (display0\<lparr>cb_queue := [(''f_ref'', []), (''f_ref'', [])], script := [returns, returns]\<rparr>) =
     (Returns (),
      display0\<lparr>trace := [Call 0 (Set_reference_freq ''blue'' (Finite 0)),
                          Call 0 (Set_reference_freq ''blue'' (Finite 0))]\<rparr>)"
    by (simp add: run_simps display0_def)
  show ?thesis unfolding d by (simp add: calls_of_kind_def)
qed

text \<open>
  C5, amended. A drain that returns has made one call for each pending entry of a known
  kind, those that arrived while it ran included: for each kind the number of calls is the
  number of entries of that kind, and the kinds of the calls are the kinds of the entries
  in the order of the queue.
\<close>

theorem one_call_per_intent:
  assumes "drain w = (Returns (), w')"
  shows "\<exists>used ext. script w = used @ script w' \<and> trace w' = trace w @ ext \<and>
           map method_kind ext = map fst (filter known (cb_queue w @ arrivals used)) \<and>
           (\<forall>k \<in> {''fast_mode'', ''auto_expose'', ''f_ref'', ''exposure''}.
              length (calls_of_kind k ext) =
              length (entries_of_kind k (cb_queue w @ arrivals used)))"
proof -
  from drain_drained [OF assms] obtain used ext "done" where
    s: "script w = used @ script w'" and t: "trace w' = trace w @ ext"
    and q: "cb_queue w @ arrivals used = done" and l: "list_all2 answers ext (filter known done)"
    unfolding drained_def by auto
  from l have m: "map method_kind ext = map fst (filter known done)"
    by (rule list_all2_answers_kinds)
  have "length (filter (\<lambda>e. method_kind e = k) ext) = length (filter (\<lambda>i. fst i = k) done)"
    if k: "k \<in> {''fast_mode'', ''auto_expose'', ''f_ref'', ''exposure''}" for k
  proof -
    have "length (filter (\<lambda>e. method_kind e = k) ext) = length (filter (\<lambda>x. x = k) (map method_kind ext))"
      by (simp add: filter_map comp_def)
    also have "\<dots> = length (filter (\<lambda>x. x = k) (map fst (filter known done)))"
      by (simp only: m)
    also have "\<dots> = length (filter (\<lambda>i. fst i = k) (filter known done))"
      by (simp add: filter_map comp_def)
    also have "filter (\<lambda>i. fst i = k) (filter known done) = filter (\<lambda>i. fst i = k) done"
      using k by (auto simp: known_def intro!: filter_cong)
    finally show ?thesis .
  qed
  with s t m q show ?thesis unfolding calls_of_kind_def entries_of_kind_def by blast
qed

theorem one_call_per_intent_witness:
  "drain (display0\<lparr>cb_queue := [(''f_ref'', []), (''f_ref'', [])], script := [returns, returns]\<rparr>) =
     (Returns (),
      display0\<lparr>trace := [Call 0 (Set_reference_freq ''blue'' (Finite 0)),
                          Call 0 (Set_reference_freq ''blue'' (Finite 0))]\<rparr>) \<and>
   length (calls_of_kind ''f_ref''
      [Call 0 (Set_reference_freq ''blue'' (Finite 0)), Call 0 (Set_reference_freq ''blue'' (Finite 0))]) =
   length (entries_of_kind ''f_ref'' ([(''f_ref'', []), (''f_ref'', [])] @ arrivals [returns, returns]))"
proof -
  let ?w = "display0\<lparr>cb_queue := [(''f_ref'', []), (''f_ref'', [])], script := [returns, returns]\<rparr>"
  let ?w' = "display0\<lparr>trace := [Call 0 (Set_reference_freq ''blue'' (Finite 0)),
                          Call 0 (Set_reference_freq ''blue'' (Finite 0))]\<rparr>"
  have d: "drain ?w = (Returns (), ?w')"
    by (simp add: run_simps display0_def)
  have s: "script ?w = [returns, returns]" "script ?w' = []" "trace ?w = []"
    "trace ?w' = [Call 0 (Set_reference_freq ''blue'' (Finite 0)), Call 0 (Set_reference_freq ''blue'' (Finite 0))]"
    "cb_queue ?w = [(''f_ref'', []), (''f_ref'', [])]"
    by (simp_all add: display0_def)
  from one_call_per_intent [OF d] obtain used ext where
    u: "[returns, returns] = used @ []"
      "[Call 0 (Set_reference_freq ''blue'' (Finite 0)), Call 0 (Set_reference_freq ''blue'' (Finite 0))] = [] @ ext"
    and k: "\<forall>k \<in> {''fast_mode'', ''auto_expose'', ''f_ref'', ''exposure''}.
              length (calls_of_kind k ext) =
              length (entries_of_kind k ([(''f_ref'', []), (''f_ref'', [])] @ arrivals used))"
    unfolding s by blast
  from u have "used = [returns, returns]"
    "ext = [Call 0 (Set_reference_freq ''blue'' (Finite 0)), Call 0 (Set_reference_freq ''blue'' (Finite 0))]"
    by simp_all
  with k have "length (calls_of_kind ''f_ref''
      [Call 0 (Set_reference_freq ''blue'' (Finite 0)), Call 0 (Set_reference_freq ''blue'' (Finite 0))]) =
   length (entries_of_kind ''f_ref'' ([(''f_ref'', []), (''f_ref'', [])] @ arrivals [returns, returns]))"
    by blast
  with d show ?thesis by (rule conjI)
qed

lemma dispatch_keeps_head:
  assumes "cb_queue w = c # q" "dispatch c w = (r, w1)"
  shows "\<exists>used. script w = used @ script w1 \<and> cb_queue w1 = c # q @ arrivals used"
  using dispatch_accounted [OF assms(2)] assms(1) unfolding accounted_def by auto

lemma drain_after_return:
  assumes "cb_queue w = c # q" "dispatch c w = (Returns (), w1)"
  shows "drain w = drain (w1\<lparr>cb_queue := tl (cb_queue w1)\<rparr>)"
proof -
  from dispatch_keeps_head [OF assms] obtain used where "cb_queue w1 = c # q @ arrivals used"
    by blast
  then have "del_first w1 = (Returns (), w1\<lparr>cb_queue := tl (cb_queue w1)\<rparr>)"
    by (simp add: del_first_def)
  with assms show ?thesis by (simp add: drain_Cons andthen_def)
qed

lemma drain_after_failure:
  assumes "cb_queue w = c # q" "dispatch c w = (r, w1)" "r \<noteq> Returns ()"
  shows "drain w = (r, w1)"
  using assms by (cases r) (simp_all add: drain_Cons andthen_def)

text \<open>A drain that does not return has stopped in the dispatch of the entry it leaves at the head.\<close>

lemma drain_stops_at:
  "drain w = (r, w') \<Longrightarrow> r \<noteq> Returns () \<Longrightarrow>
     \<exists>w0 c q. cb_queue w0 = c # q \<and> dispatch c w0 = (r, w') \<and> hd (cb_queue w') = c \<and> cb_queue w' \<noteq> []"
proof (induction w arbitrary: r w' rule: drain.induct)
  case (1 w)
  show ?case
  proof (cases "cb_queue w")
    case Nil
    with "1.prems" show ?thesis by (simp add: drain_Nil)
  next
    case (Cons c q)
    obtain rd wd where disp: "dispatch c w = (rd, wd)" by (cases "dispatch c w")
    from dispatch_keeps_head [OF Cons disp] have hd: "hd (cb_queue wd) = c" "cb_queue wd \<noteq> []"
      by auto
    show ?thesis
    proof (cases "rd = Returns ()")
      case False
      from drain_after_failure [OF Cons disp False] "1.prems" have "r = rd" "w' = wd" by simp_all
      with Cons disp hd show ?thesis by blast
    next
      case True
      let ?w1 = "wd\<lparr>cb_queue := tl (cb_queue wd)\<rparr>"
      from hd have "del_first wd = (Returns (), ?w1)"
        by (cases "cb_queue wd") (simp_all add: del_first_def)
      with disp True have turn: "andthen (dispatch c w) (\<lambda>_. del_first) = (Returns (), ?w1)"
        by (simp add: andthen_def)
      from drain_after_return [OF Cons] disp True "1.prems" have "drain ?w1 = (r, w')" by simp
      from "1.IH" [OF Cons turn this "1.prems"(2)] show ?thesis .
    qed
  qed
qed

lemma sleep_queue:
  "sleep d w = (r, w') \<Longrightarrow> \<exists>used. script w = used @ script w' \<and> cb_queue w' = cb_queue w @ arrivals used"
proof (cases "suspend (w\<lparr>trace := trace w @ [Slept d]\<rparr>)")
  case None
  assume "sleep d w = (r, w')"
  with None have "w' = w\<lparr>trace := trace w @ [Slept d]\<rparr>" by (simp add: sleep_def)
  then have "script w = [] @ script w' \<and> cb_queue w' = cb_queue w @ arrivals []" by simp
  then show ?thesis by blast
next
  case (Some a)
  assume sl: "sleep d w = (r, w')"
  obtain b w1 where s: "suspend (w\<lparr>trace := trace w @ [Slept d]\<rparr>) = Some (b, w1)"
    using Some by (cases a) auto
  with sl have "w' = w1" by (simp add: sleep_def)
  with suspend_account [OF s] have "\<exists>s1. script w = [s1] @ script w' \<and> cb_queue w' = cb_queue w @ arrivals [s1]"
    by auto
  then show ?thesis by blast
qed

lemma inner_cycle_after_raise:
  "drain (w\<lparr>wake_loop := False\<rparr>) = (Raises e, w') \<Longrightarrow> inner_cycle w = sleep (1 / 10) w'"
  by (simp add: inner_cycle_def andthen_def)

lemmas cycle_simps = inner_cycle_def refresh_def Let_def get_freq_def sleep_def wait_for_wake_def
  data_timestamp_def next_measurement_in_def data_expiry_def zero_pyfloat_def

text \<open>
  C4, as stated, fails: with \<open>fast_mode\<close> and \<open>f_ref\<close> pending and the first call
  raising, the cycle makes that one call and sleeps; \<open>set_reference_freq\<close> is not called
  in that cycle, and both entries are still queued after it.
\<close>

theorem failure_blocks_rest_counterexample:
  "inner_cycle (display0\<lparr>cb_queue := [(''fast_mode'', []), (''f_ref'', [])], script := [fails, returns]\<rparr>) =
     (Returns (),
      display0\<lparr>cb_queue := [(''fast_mode'', []), (''f_ref'', [])],
        trace := [Call 0 (Set_fast_mode ''blue'' False), Slept (1 / 10)]\<rparr>) \<and>
   calls_of_kind ''f_ref''
     (trace (snd (inner_cycle (display0\<lparr>cb_queue := [(''fast_mode'', []), (''f_ref'', [])],
        script := [fails, returns]\<rparr>)))) = []"
proof -
  have d: "inner_cycle (display0\<lparr>cb_queue := [(''fast_mode'', []), (''f_ref'', [])], script := [fails, returns]\<rparr>) =
     (Returns (),
      display0\<lparr>cb_queue := [(''fast_mode'', []), (''f_ref'', [])],
        trace := [Call 0 (Set_fast_mode ''blue'' False), Slept (1 / 10)]\<rparr>)"
    by (simp add: cycle_simps run_simps display0_def)
  show ?thesis unfolding d by (simp add: calls_of_kind_def)
qed

text \<open>
  C4, amended. When the dispatch of a pending entry raises, the drain stops there: calls
  have been made for the entries before it and at most for the failing entry itself, none
  for the entries behind it; the failing entry and everything behind it stay in the queue,
  the cycle goes to its tenth of a second of sleep, and after the sleep they are still
  queued in that order.
\<close>

theorem drain_stops_at_failure:
  assumes "drain (w\<lparr>wake_loop := False\<rparr>) = (Raises e, w')"
  shows "\<exists>used ext done c rest.
           script w = used @ script w' \<and> trace w' = trace w @ ext \<and>
           cb_queue w @ arrivals used = done @ c # rest \<and> cb_queue w' = c # rest \<and>
           (list_all2 answers ext (filter known done) \<or>
            list_all2 answers ext (filter known done @ [c])) \<and>
           inner_cycle w = sleep (1 / 10) w' \<and>
           (\<forall>r2 w2. sleep (1 / 10) w' = (r2, w2) \<longrightarrow>
              (\<exists>used2. script w' = used2 @ script w2 \<and> cb_queue w2 = c # rest @ arrivals used2))"
proof -
  from drain_drained [OF assms] obtain used ext "done" att where
    s: "script w = used @ script w'" and t: "trace w' = trace w @ ext"
    and q: "cb_queue w @ arrivals used = done @ cb_queue w'"
    and l: "list_all2 answers ext (filter known done @ att)"
    and ne: "cb_queue w' \<noteq> []"
    and a: "att = [] \<or> att = [hd (cb_queue w')]"
    unfolding drained_def by auto
  from ne obtain c rest where cr: "cb_queue w' = c # rest" by (cases "cb_queue w'") auto
  from l a cr have l': "list_all2 answers ext (filter known done) \<or>
            list_all2 answers ext (filter known done @ [c])"
    by auto
  have sl: "\<exists>used2. script w' = used2 @ script w2 \<and> cb_queue w2 = c # rest @ arrivals used2"
    if "sleep (1 / 10) w' = (r2, w2)" for r2 w2
    using sleep_queue [OF that] cr by simp
  from s t q cr l' inner_cycle_after_raise [OF assms] sl show ?thesis
    by (metis (no_types))
qed


theorem drain_stops_at_failure_witness:
  "drain (display0\<lparr>cb_queue := [(''fast_mode'', []), (''f_ref'', [])], script := [fails, returns],
       wake_loop := False\<rparr>) =
     (Raises RemoteError,
      display0\<lparr>cb_queue := [(''fast_mode'', []), (''f_ref'', [])], script := [returns],
        trace := [Call 0 (Set_fast_mode ''blue'' False)]\<rparr>) \<and>
   (\<exists>used ext done c rest.
      [fails, returns] = used @ [returns] \<and> [Call 0 (Set_fast_mode ''blue'' False)] = [] @ ext \<and>
      [(''fast_mode'', []), (''f_ref'', [])] @ arrivals used = done @ c # rest \<and>
      [(''fast_mode'', []), (''f_ref'', [])] = c # rest \<and>
      (list_all2 answers ext (filter known done) \<or> list_all2 answers ext (filter known done @ [c])))"
proof -
  let ?w = "display0\<lparr>cb_queue := [(''fast_mode'', []), (''f_ref'', [])], script := [fails, returns]\<rparr>"
  let ?w' = "display0\<lparr>cb_queue := [(''fast_mode'', []), (''f_ref'', [])], script := [returns],
        trace := [Call 0 (Set_fast_mode ''blue'' False)]\<rparr>"
  have d: "drain (?w\<lparr>wake_loop := False\<rparr>) = (Raises RemoteError, ?w')"
    by (simp add: run_simps display0_def)
  have s: "script ?w = [fails, returns]" "script ?w' = [returns]" "trace ?w = []"
    "trace ?w' = [Call 0 (Set_fast_mode ''blue'' False)]"
    "cb_queue ?w = [(''fast_mode'', []), (''f_ref'', [])]"
    "cb_queue ?w' = [(''fast_mode'', []), (''f_ref'', [])]"
    by (simp_all add: display0_def)
  from drain_stops_at_failure [OF d]
  have "\<exists>used ext done c rest.
      script ?w = used @ script ?w' \<and> trace ?w' = trace ?w @ ext \<and>
      cb_queue ?w @ arrivals used = done @ c # rest \<and> cb_queue ?w' = c # rest \<and>
      (list_all2 answers ext (filter known done) \<or> list_all2 answers ext (filter known done @ [c]))"
    by blast
  then have "\<exists>used ext done c rest.
      [fails, returns] = used @ [returns] \<and> [Call 0 (Set_fast_mode ''blue'' False)] = [] @ ext \<and>
      [(''fast_mode'', []), (''f_ref'', [])] @ arrivals used = done @ c # rest \<and>
      [(''fast_mode'', []), (''f_ref'', [])] = c # rest \<and>
      (list_all2 answers ext (filter known done) \<or> list_all2 answers ext (filter known done @ [c]))"
    unfolding s .
  with d show ?thesis by simp
qed

text \<open>
  C3, as stated, fails: a \<open>fast_mode\<close> entry whose call raises is still in the queue after
  the cycle, and the next cycle makes the call again.
\<close>

theorem dropped_not_retried_counterexample:
  "cb_queue (snd (inner_cycle (display0\<lparr>cb_queue := [(''fast_mode'', [])],
       script := [fails, returns, returns, returns]\<rparr>))) = [(''fast_mode'', [])] \<and>
   trace (snd (inner_cycle (snd (inner_cycle (display0\<lparr>cb_queue := [(''fast_mode'', [])],
       script := [fails, returns, returns, returns]\<rparr>))))) =
     [Call 0 (Set_fast_mode ''blue'' False), Slept (1 / 10),
      Call 0 (Set_fast_mode ''blue'' False), Waited (Finite 1)]"
proof -
  have a: "inner_cycle (display0\<lparr>cb_queue := [(''fast_mode'', [])],
       script := [fails, returns, returns, returns]\<rparr>) =
     (Returns (), display0\<lparr>cb_queue := [(''fast_mode'', [])], script := [returns, returns],
        trace := [Call 0 (Set_fast_mode ''blue'' False), Slept (1 / 10)]\<rparr>)"
    by (simp add: cycle_simps run_simps display0_def)
  have b: "inner_cycle (display0\<lparr>cb_queue := [(''fast_mode'', [])], script := [returns, returns],
        trace := [Call 0 (Set_fast_mode ''blue'' False), Slept (1 / 10)]\<rparr>) =
     (Returns (), display0\<lparr>
        trace := [Call 0 (Set_fast_mode ''blue'' False), Slept (1 / 10),
                  Call 0 (Set_fast_mode ''blue'' False), Waited (Finite 1)]\<rparr>)"
    by (simp add: cycle_simps run_simps display0_def)
  show ?thesis unfolding a snd_conv b by (simp add: display0_def)
qed

text \<open>
  C3, amended. An entry stays at the head of the queue while its call is made and is
  deleted only after the call has returned. When the dispatch does not return, the drain
  ends with that result and the entry still at the head; when it raised, the cycle sleeps
  and the drain of the next cycle starts by dispatching the same entry again.
\<close>

theorem removed_after_return:
  "(cb_queue w = c # q \<longrightarrow> dispatch c w = (r, w1) \<longrightarrow>
      (\<exists>used. script w = used @ script w1 \<and> cb_queue w1 = c # q @ arrivals used) \<and>
      (r = Returns () \<longrightarrow> drain w = drain (w1\<lparr>cb_queue := tl (cb_queue w1)\<rparr>)) \<and>
      (r \<noteq> Returns () \<longrightarrow> drain w = (r, w1))) \<and>
   (drain (w0\<lparr>wake_loop := False\<rparr>) = (Raises e, w') \<longrightarrow>
      (\<exists>v c' q'. cb_queue v = c' # q' \<and> dispatch c' v = (Raises e, w') \<and> hd (cb_queue w') = c' \<and>
         inner_cycle w0 = sleep (1 / 10) w' \<and>
         (\<forall>r2 w2. sleep (1 / 10) w' = (r2, w2) \<longrightarrow>
            drain (w2\<lparr>wake_loop := False\<rparr>) =
              andthen (andthen (dispatch c' (w2\<lparr>wake_loop := False\<rparr>)) (\<lambda>_. del_first)) (\<lambda>_. drain))))"
proof -
  have one: "(\<exists>used. script w = used @ script w1 \<and> cb_queue w1 = c # q @ arrivals used) \<and>
      (r = Returns () \<longrightarrow> drain w = drain (w1\<lparr>cb_queue := tl (cb_queue w1)\<rparr>)) \<and>
      (r \<noteq> Returns () \<longrightarrow> drain w = (r, w1))"
    if h: "cb_queue w = c # q" "dispatch c w = (r, w1)"
    using dispatch_keeps_head [OF h] drain_after_return [OF h(1)] drain_after_failure [OF h] h(2)
    by blast
  have two: "\<exists>v c' q'. cb_queue v = c' # q' \<and> dispatch c' v = (Raises e, w') \<and> hd (cb_queue w') = c' \<and>
         inner_cycle w0 = sleep (1 / 10) w' \<and>
         (\<forall>r2 w2. sleep (1 / 10) w' = (r2, w2) \<longrightarrow>
            drain (w2\<lparr>wake_loop := False\<rparr>) =
              andthen (andthen (dispatch c' (w2\<lparr>wake_loop := False\<rparr>)) (\<lambda>_. del_first)) (\<lambda>_. drain))"
    if d: "drain (w0\<lparr>wake_loop := False\<rparr>) = (Raises e, w')"
  proof -
    from drain_stops_at [OF d] obtain v c' q' where
      v: "cb_queue v = c' # q'" "dispatch c' v = (Raises e, w')" "hd (cb_queue w') = c'"
        "cb_queue w' \<noteq> []"
      by auto
    have "drain (w2\<lparr>wake_loop := False\<rparr>) =
              andthen (andthen (dispatch c' (w2\<lparr>wake_loop := False\<rparr>)) (\<lambda>_. del_first)) (\<lambda>_. drain)"
      if "sleep (1 / 10) w' = (r2, w2)" for r2 w2
    proof -
      from sleep_queue [OF that] v(3,4) obtain rest where "cb_queue w2 = c' # rest"
        by (cases "cb_queue w'") auto
      then have "cb_queue (w2\<lparr>wake_loop := False\<rparr>) = c' # rest" by simp
      then show ?thesis by (rule drain_Cons)
    qed
    with v inner_cycle_after_raise [OF d] show ?thesis by blast
  qed
  from one two show ?thesis by blast
qed


theorem removed_after_return_witness:
  "cb_queue (display0\<lparr>cb_queue := [(''fast_mode'', [])], script := [fails, returns]\<rparr>) =
     (''fast_mode'', []) # [] \<and>
   dispatch (''fast_mode'', []) (display0\<lparr>cb_queue := [(''fast_mode'', [])], script := [fails, returns]\<rparr>) =
     (Raises RemoteError,
      display0\<lparr>cb_queue := [(''fast_mode'', [])], script := [returns],
        trace := [Call 0 (Set_fast_mode ''blue'' False)]\<rparr>) \<and>
   drain (display0\<lparr>cb_queue := [(''fast_mode'', [])], script := [fails, returns]\<rparr>) =
     (Raises RemoteError,
      display0\<lparr>cb_queue := [(''fast_mode'', [])], script := [returns],
        trace := [Call 0 (Set_fast_mode ''blue'' False)]\<rparr>) \<and>
   inner_cycle (display0\<lparr>cb_queue := [(''fast_mode'', [])], script := [fails, returns]\<rparr>) =
     sleep (1 / 10) (display0\<lparr>cb_queue := [(''fast_mode'', [])], script := [returns],
        trace := [Call 0 (Set_fast_mode ''blue'' False)]\<rparr>)"
proof -
  let ?w = "display0\<lparr>cb_queue := [(''fast_mode'', [])], script := [fails, returns]\<rparr>"
  let ?w1 = "display0\<lparr>cb_queue := [(''fast_mode'', [])], script := [returns],
        trace := [Call 0 (Set_fast_mode ''blue'' False)]\<rparr>"
  have q: "cb_queue ?w = (''fast_mode'', []) # []"
    by (simp add: display0_def)
  have d: "dispatch (''fast_mode'', []) ?w = (Raises RemoteError, ?w1)"
    by (simp add: run_simps display0_def)
  have w: "?w\<lparr>wake_loop := False\<rparr> = ?w"
    by (simp add: display0_def)
  note inst = removed_after_return [of ?w "(''fast_mode'', [])" "[]" "Raises RemoteError" ?w1
      ?w RemoteError ?w1]
  from inst q d have dr: "drain ?w = (Raises RemoteError, ?w1)"
    by blast
  then have "drain (?w\<lparr>wake_loop := False\<rparr>) = (Raises RemoteError, ?w1)"
    by (simp only: w)
  with inst have "inner_cycle ?w = sleep (1 / 10) ?w1"
    by blast
  with q d dr show ?thesis by blast
qed

section \<open>The rest of the loop leaves clients and connections alone\<close>

lemma inner_loop_quiet: "inner_loop w = (r, w') \<Longrightarrow> quiet w w'"
proof (induction w arbitrary: r w' rule: inner_loop.induct)
  case (1 w)
  show ?case
  proof (cases "\<not> exit_request w \<and> server w \<noteq> []")
    case False
    with "1.prems" show ?thesis by (simp add: inner_loop.simps)
  next
    case True
    obtain r1 w1 where c: "inner_cycle w = (r1, w1)" by (cases "inner_cycle w")
    from inner_cycle_quiet [OF c] have q1: "quiet w w1" .
    show ?thesis
    proof (cases r1)
      case (Returns x)
      with "1.prems" True c have "inner_loop w1 = (r, w')"
        by (simp add: inner_loop.simps [of w] andthen_def)
      from "1.IH" [OF True _ this] c Returns have "quiet w1 w'" by simp
      with q1 show ?thesis by (rule quiet_trans)
    next
      case (Raises e)
      with "1.prems" True c q1 show ?thesis
        by (simp add: inner_loop.simps [of w] andthen_def)
    next
      case Blocks
      with "1.prems" True c q1 show ?thesis
        by (simp add: inner_loop.simps [of w] andthen_def)
    qed
  qed
qed

lemma wake_wait_quiet: "wake_wait w = (r, w') \<Longrightarrow> quiet w w'"
proof (induction w arbitrary: r w' rule: wake_wait.induct)
  case (1 w)
  show ?case
  proof (cases "wake_loop w")
    case True
    with "1.prems" show ?thesis by (simp add: wake_wait.simps)
  next
    case False
    show ?thesis
    proof (cases "suspend w")
      case None
      with "1.prems" False show ?thesis by (simp add: wake_wait.simps)
    next
      case (Some a)
      obtain b w1 where a: "a = (b, w1)" by (cases a)
      with Some have s: "suspend w = Some (b, w1)" by simp
      with "1.prems" False have "wake_wait w1 = (r, w')" by (simp add: wake_wait.simps [of w])
      from "1.IH" [OF False s refl this] have "quiet w1 w'" .
      with suspend_quiet [OF s] show ?thesis by (rule quiet_trans)
    qed
  qed
qed

lemma get_min_exposure_quiet: "get_min_exposure w = (r, w') \<Longrightarrow> quiet w w'"
  by (auto simp: get_min_exposure_def split: option.splits dest: call_quiet)

lemma get_max_exposure_quiet: "get_max_exposure w = (r, w') \<Longrightarrow> quiet w w'"
  by (auto simp: get_max_exposure_def split: option.splits dest: call_quiet)

lemma spin_set_quiet: "spin_set ccd v w = (r, w') \<Longrightarrow> quiet w w'"
  by (auto simp: spin_set_def quiet_def split: if_splits)

lemma set_exposure_value_quiet: "set_exposure_value ccd w = (r, w') \<Longrightarrow> quiet w w'"
  by (auto simp: set_exposure_value_def split: option.splits if_splits dest: spin_set_quiet)

lemma update_exposure_quiet: "update_exposure ccd es w = (r, w') \<Longrightarrow> quiet w w'"
proof (induction es arbitrary: ccd w r w')
  case Nil
  then show ?case by simp
next
  case (Cons e es)
  from Cons.prems show ?case
    unfolding update_exposure.simps
    by (elim andthen_quiet) (auto dest: spin_set_quiet Cons.IH)
qed

lemma set_ranges_quiet: "set_ranges ccds w = (r, w') \<Longrightarrow> quiet w w'"
proof (induction ccds arbitrary: w r w')
  case Nil
  then show ?case by simp
next
  case (Cons ccd ccds)
  from Cons.prems show ?case
    unfolding set_ranges.simps
    by (elim andthen_quiet)
      (auto dest: get_min_exposure_quiet get_max_exposure_quiet set_exposure_value_quiet Cons.IH)
qed

lemma update_widgets_quiet: "update_widgets w = (r, w') \<Longrightarrow> quiet w w'"
proof (cases "laser_db w")
  case None
  assume "update_widgets w = (r, w')"
  with None show ?thesis by (simp add: update_widgets_def)
next
  case (Some db)
  let ?w1 = "w\<lparr>fast_mode := db_fast_mode db, auto_exposure := db_auto_exposure db,
                f_ref := fl (db_f_ref db / 10 ^ 12)\<rparr>"
  assume u: "update_widgets w = (r, w')"
  have q1: "quiet w ?w1" by (simp add: quiet_def)
  show ?thesis
  proof (cases "freq_timestamp w")
    case None
    with u Some have "w' = ?w1" by (simp add: update_widgets_def)
    with q1 show ?thesis by simp
  next
    case (Some t)
    with u \<open>laser_db w = Some db\<close>
    have "andthen (update_exposure 0 (db_exposure db) ?w1)
            (\<lambda>_ w2. case osa_timestamp w2 of
                       None \<Rightarrow> (Raises KeyError, w2)
                     | Some _ \<Rightarrow> (Returns (), w2)) = (r, w')"
      by (simp add: update_widgets_def)
    then have "quiet ?w1 w'"
      by (elim andthen_quiet) (auto dest: update_exposure_quiet split: option.splits)
    with q1 show ?thesis by (rule quiet_trans)
  qed
qed

lemma setConnected_quiet: "setConnected c w = (r, w') \<Longrightarrow> quiet w w'"
proof (cases c)
  case False
  assume "setConnected c w = (r, w')"
  with False show ?thesis by (auto simp: setConnected_def quiet_def)
next
  case True
  assume s: "setConnected c w = (r, w')"
  show ?thesis
  proof (cases "laser_db w")
    case None
    with s True show ?thesis by (simp add: setConnected_def)
  next
    case (Some db)
    with s True have "andthen (andthen (set_ranges [0 ..< length (exposure w)] w) (\<lambda>_. update_widgets))
               (\<lambda>_ w'. (Returns (), w'\<lparr>connected := True\<rparr>)) = (r, w')"
      by (simp add: setConnected_def)
    then show ?thesis
      by (elim andthen_quiet) (auto simp: quiet_def dest: set_ranges_quiet update_widgets_quiet)
  qed
qed

section \<open>No exception leaves the loop\<close>

lemma sleep_no_raise: "fst (sleep d w) \<noteq> Raises e"
  by (simp add: sleep_def Let_def split: option.splits prod.splits)

lemma wait_for_wake_no_raise: "fst (wait_for_wake d w) \<noteq> Raises e"
  by (simp add: wait_for_wake_def Let_def split: option.splits prod.splits)

lemma inner_cycle_no_raise: "fst (inner_cycle w) \<noteq> Raises e"
  by (simp add: inner_cycle_def sleep_no_raise wait_for_wake_no_raise
      split: prod.splits result.splits)

lemma inner_loop_stop: "exit_request w \<or> server w = [] \<Longrightarrow> inner_loop w = (Returns (), w)"
  by (subst inner_loop.simps) auto

lemma inner_loop_go:
  "\<not> exit_request w \<Longrightarrow> server w \<noteq> [] \<Longrightarrow>
     inner_loop w = andthen (inner_cycle w) (\<lambda>_. inner_loop)"
  by (subst inner_loop.simps) simp

lemma inner_loop_no_raise: "fst (inner_loop w) \<noteq> Raises e"
proof (induction w rule: inner_loop.induct)
  case (1 w)
  show ?case
  proof (cases "\<not> exit_request w \<and> server w \<noteq> []")
    case False
    then show ?thesis by (simp add: inner_loop_stop)
  next
    case True
    obtain r1 w1 where c: "inner_cycle w = (r1, w1)" by (cases "inner_cycle w")
    show ?thesis
    proof (cases r1)
      case (Returns x)
      with "1.IH" [OF True c [unfolded Returns]] True c show ?thesis
        by (simp add: inner_loop_go andthen_def)
    next
      case (Raises e')
      with inner_cycle_no_raise [of w e'] c show ?thesis by simp
    next
      case Blocks
      with True c show ?thesis by (simp add: inner_loop_go andthen_def)
    qed
  qed
qed

lemma wake_wait_no_raise: "fst (wake_wait w) \<noteq> Raises e"
proof (induction w rule: wake_wait.induct)
  case (1 w)
  show ?case
  proof (cases "wake_loop w")
    case True
    then show ?thesis by (simp add: wake_wait.simps)
  next
    case False
    show ?thesis
    proof (cases "suspend w")
      case None
      with False show ?thesis by (simp add: wake_wait.simps)
    next
      case (Some a)
      obtain b w1 where "a = (b, w1)" by (cases a)
      with Some have s: "suspend w = Some (b, w1)" by simp
      from "1.IH" [OF False s refl] s False show ?thesis
        by (simp add: wake_wait.simps [of w])
    qed
  qed
qed

lemma except_pass_returns: "fst (except_pass (close_rpc w)) = Returns ()"
  by (simp add: except_pass_def close_rpc_def split: option.splits)

lemma outer_cycle_no_raise: "fst (outer_cycle w) \<noteq> Raises e"
proof -
  obtain w1 where c: "except_pass (close_rpc (w\<lparr>wake_loop := False\<rparr>)) = (Returns (), w1)"
    using except_pass_returns [of "w\<lparr>wake_loop := False\<rparr>"]
    by (cases "except_pass (close_rpc (w\<lparr>wake_loop := False\<rparr>))") auto
  show ?thesis
  proof (cases "server w1 = []")
    case True
    with c wake_wait_no_raise [of "w1\<lparr>connected := False\<rparr>" e] show ?thesis
      by (simp add: outer_cycle_def andthen_def setConnected_def)
  next
    case False
    with c inner_loop_no_raise [of _ e] show ?thesis
      by (simp add: outer_cycle_def andthen_def split: prod.splits result.splits)
  qed
qed

lemma loop_no_escape: "fst (loop n w) \<noteq> Escaped e"
proof (induction n arbitrary: w)
  case 0
  show ?case by simp
next
  case (Suc n)
  show ?case
  proof (cases "outer_cycle w")
    case (Pair r w')
    with outer_cycle_no_raise [of w] Suc show ?thesis
      by (cases r) auto
  qed
qed

lemma loop_finished: "fst (loop n w) = Finished \<Longrightarrow> exit_request (snd (loop n w))"
proof (induction n arbitrary: w)
  case 0
  then show ?case by simp
next
  case (Suc n)
  show ?case
  proof (cases "exit_request w")
    case True
    then show ?thesis by simp
  next
    case False
    obtain r w' where o: "outer_cycle w = (r, w')" by (cases "outer_cycle w")
    with Suc False show ?thesis by (cases r) auto
  qed
qed

fun is_call :: "effect \<Rightarrow> bool" where
  "is_call (Call h c) = True"
| "is_call _ = False"

fun is_logged :: "effect \<Rightarrow> bool" where
  "is_logged (Logged s) = True"
| "is_logged _ = False"

lemma answers_is_call: "answers e i \<Longrightarrow> is_call e"
  by (induction e i rule: answers.induct) simp_all

lemma list_all2_answers_calls: "list_all2 answers ext is \<Longrightarrow> list_all is_call ext"
  by (induction ext "is" rule: list_all2_induct) (auto dest: answers_is_call)

lemma drain_calls: "drain w = (r, w') \<Longrightarrow> \<exists>ext. trace w' = trace w @ ext \<and> list_all is_call ext"
  by (drule drain_drained) (auto simp: drained_def dest: list_all2_answers_calls)

lemma refresh_calls: "refresh w = (r, w') \<Longrightarrow> \<exists>ext. trace w' = trace w @ ext \<and> list_all is_call ext"
  by (auto simp: refresh_def Let_def get_freq_def andthen_def
      split: option.splits if_splits prod.splits result.splits dest!: call_trace)

lemma drain_refresh_calls:
  assumes "andthen (drain w) (\<lambda>_. refresh) = (r, w')"
  shows "\<exists>ext. trace w' = trace w @ ext \<and> list_all is_call ext"
proof -
  obtain rd w1 where d: "drain w = (rd, w1)" by (cases "drain w")
  from drain_calls [OF d] obtain ext1 where e1: "trace w1 = trace w @ ext1" "list_all is_call ext1"
    by blast
  show ?thesis
  proof (cases "rd = Returns ()")
    case True
    with assms d have "refresh w1 = (r, w')" by (simp add: andthen_def)
    from refresh_calls [OF this] obtain ext2 where "trace w' = trace w1 @ ext2" "list_all is_call ext2"
      by blast
    with e1 have "trace w' = trace w @ (ext1 @ ext2) \<and> list_all is_call (ext1 @ ext2)" by simp
    then show ?thesis by blast
  next
    case False
    with assms d have "w' = w1" by (cases rd) (auto simp: andthen_def)
    with e1 show ?thesis by blast
  qed
qed

lemma is_call_not_logged: "list_all is_call ext \<Longrightarrow> \<not> list_ex is_logged ext"
proof (induction ext)
  case Nil
  show ?case by simp
next
  case (Cons e ext)
  then show ?case by (cases e) simp_all
qed

text \<open>
  C8, as stated, fails: a measurement request that raises is answered with the sleep and
  nothing else; the cycle writes no log entry.
\<close>

theorem errors_logged_counterexample:
  "inner_cycle (display0\<lparr>clock := 106, script := [fails, returns]\<rparr>) =
     (Returns (),
      display0\<lparr>clock := 106,
        trace := [Call 0 (Get_freq ''blue'' 5 3 True True True), Slept (1 / 10)]\<rparr>) \<and>
   \<not> list_ex is_logged
     (trace (snd (inner_cycle (display0\<lparr>clock := 106, script := [fails, returns]\<rparr>))))"
proof -
  have d: "inner_cycle (display0\<lparr>clock := 106, script := [fails, returns]\<rparr>) =
     (Returns (),
      display0\<lparr>clock := 106,
        trace := [Call 0 (Get_freq ''blue'' 5 3 True True True), Slept (1 / 10)]\<rparr>)"
    by (simp add: cycle_simps run_simps display0_def REGULAR_UPDATE_PRIORITY_def)
  show ?thesis unfolding d by simp
qed

text \<open>
  C8, amended. An exception raised by the drain or by the refresh of an inner cycle is
  caught: the cycle goes on with a sleep of a tenth of a second, having added to the
  trace only remote calls and the sleep, no log entry; then the inner loop starts again
  at its test. The inner cycle and the inner loop never raise, no exception leaves the
  loop, and the loop has finished only with the exit request set.
\<close>

theorem errors_caught_with_backoff:
  "(andthen (drain (w\<lparr>wake_loop := False\<rparr>)) (\<lambda>_. refresh) = (Raises e, w') \<longrightarrow>
      inner_cycle w = sleep (1 / 10) w' \<and>
      new_effects w (snd (inner_cycle w)) = new_effects w w' @ [Slept (1 / 10)] \<and>
      list_all is_call (new_effects w w') \<and>
      \<not> list_ex is_logged (new_effects w (snd (inner_cycle w)))) \<and>
   fst (inner_cycle w) \<noteq> Raises x \<and>
   fst (inner_loop w) \<noteq> Raises x \<and>
   (\<not> exit_request w \<longrightarrow> server w \<noteq> [] \<longrightarrow> inner_cycle w = (Returns (), w1) \<longrightarrow>
      inner_loop w = inner_loop w1) \<and>
   fst (loop n v) \<noteq> Escaped x \<and>
   (fst (loop n v) = Finished \<longrightarrow> exit_request (snd (loop n v)))"
proof -
  have a: "inner_cycle w = sleep (1 / 10) w' \<and>
      new_effects w (snd (inner_cycle w)) = new_effects w w' @ [Slept (1 / 10)] \<and>
      list_all is_call (new_effects w w') \<and>
      \<not> list_ex is_logged (new_effects w (snd (inner_cycle w)))"
    if h: "andthen (drain (w\<lparr>wake_loop := False\<rparr>)) (\<lambda>_. refresh) = (Raises e, w')"
  proof -
    from h have c: "inner_cycle w = sleep (1 / 10) w'"
      by (simp add: inner_cycle_def)
    from drain_refresh_calls [OF h] obtain ext where
      ext: "trace w' = trace w @ ext" "list_all is_call ext"
      by auto
    obtain r2 w2 where s: "sleep (1 / 10) w' = (r2, w2)" by (cases "sleep (1 / 10) w'")
    from sleep_trace [OF s] ext have t: "trace w2 = trace w @ (ext @ [Slept (1 / 10)])" by simp
    from ext have n1: "new_effects w w' = ext" by simp
    from t c s have n2: "new_effects w (snd (inner_cycle w)) = ext @ [Slept (1 / 10)]" by simp
    from is_call_not_logged [OF ext(2)] have "\<not> list_ex is_logged (ext @ [Slept (1 / 10)])"
      by simp
    with c n1 n2 ext(2) show ?thesis by simp
  qed
  have b: "inner_loop w = inner_loop w1"
    if "\<not> exit_request w" "server w \<noteq> []" "inner_cycle w = (Returns (), w1)"
    using that by (simp add: inner_loop_go andthen_def)
  from a b inner_cycle_no_raise [of w x] inner_loop_no_raise [of w x] loop_no_escape [of n v x]
    loop_finished [of n v]
  show ?thesis by blast
qed

theorem errors_caught_with_backoff_witness:
  "andthen (drain (display0\<lparr>clock := 106, script := [fails, returns], wake_loop := False\<rparr>))
       (\<lambda>_. refresh) =
     (Raises RemoteError,
      display0\<lparr>clock := 106, script := [returns],
        trace := [Call 0 (Get_freq ''blue'' 5 3 True True True)]\<rparr>) \<and>
   inner_cycle (display0\<lparr>clock := 106, script := [fails, returns]\<rparr>) =
     sleep (1 / 10) (display0\<lparr>clock := 106, script := [returns],
        trace := [Call 0 (Get_freq ''blue'' 5 3 True True True)]\<rparr>) \<and>
   fst (loop 1 (display0\<lparr>exit_request := True\<rparr>)) = Finished \<and>
   exit_request (snd (loop 1 (display0\<lparr>exit_request := True\<rparr>)))"
proof -
  let ?w = "display0\<lparr>clock := 106, script := [fails, returns]\<rparr>"
  let ?w' = "display0\<lparr>clock := 106, script := [returns],
        trace := [Call 0 (Get_freq ''blue'' 5 3 True True True)]\<rparr>"
  let ?v = "display0\<lparr>exit_request := True\<rparr>"
  have h: "andthen (drain (?w\<lparr>wake_loop := False\<rparr>)) (\<lambda>_. refresh) = (Raises RemoteError, ?w')"
    by (simp add: cycle_simps run_simps display0_def REGULAR_UPDATE_PRIORITY_def)
  have f: "fst (loop (Suc 0) ?v) = Finished"
    by (simp add: display0_def)
  note inst = errors_caught_with_backoff [of ?w RemoteError ?w' _ _ "Suc 0" ?v]
  from inst h have "inner_cycle ?w = sleep (1 / 10) ?w'" by blast
  moreover from inst f have "exit_request (snd (loop (Suc 0) ?v))" by blast
  ultimately show ?thesis using h f by simp
qed

section \<open>Clients and connections\<close>

text \<open>
  The clients on which \<open>connect_rpc\<close> has been started and \<open>close_rpc\<close> not called
  since.
\<close>

fun track_held :: "nat set \<Rightarrow> effect \<Rightarrow> nat set" where
  "track_held S (Connecting h host port) = insert h S"
| "track_held S (Closed h) = S - {h}"
| "track_held S _ = S"

definition held :: "effect list \<Rightarrow> nat set" where
  "held tr = foldl track_held {} tr"

text \<open>
  The discipline of the trace with \<open>self.client\<close> being \<open>c\<close>: at every point at most
  one connection is open, every connection attempt starts with nothing held and nothing
  open, what is open is held, and what is held is the current client.
\<close>

definition handles_ok :: "effect list \<Rightarrow> nat option \<Rightarrow> bool" where
  "handles_ok tr c \<longleftrightarrow>
     (\<forall>p. prefix p tr \<longrightarrow> card (live p) \<le> 1) \<and>
     (\<forall>p h host port. prefix (p @ [Connecting h host port]) tr \<longrightarrow> held p = {} \<and> live p = {}) \<and>
     live tr \<subseteq> held tr \<and> held tr \<subseteq> set_option c"

lemma live_Nil [simp]: "live [] = {}"
  by (simp add: live_def)

lemma held_Nil [simp]: "held [] = {}"
  by (simp add: held_def)

lemma live_snoc [simp]: "live (tr @ [e]) = track_live (live tr) e"
  by (simp add: live_def)

lemma held_snoc [simp]: "held (tr @ [e]) = track_held (held tr) e"
  by (simp add: held_def)

lemma harmless_track [simp]:
  "harmless e \<Longrightarrow> track_live S e = S" "harmless e \<Longrightarrow> track_held S e = S"
  by (cases e; simp)+

lemma handles_ok_Nil [simp]: "handles_ok [] c"
  by (simp add: handles_ok_def)

lemma all_prefixes_snoc:
  "(\<forall>p. prefix p (tr @ [e]) \<longrightarrow> P p) \<longleftrightarrow> (\<forall>p. prefix p tr \<longrightarrow> P p) \<and> P (tr @ [e])"
  by (auto simp: prefix_snoc)

lemma all_connects_snoc:
  "(\<forall>p h host port. prefix (p @ [Connecting h host port]) (tr @ [e]) \<longrightarrow> Q p) \<longleftrightarrow>
   (\<forall>p h host port. prefix (p @ [Connecting h host port]) tr \<longrightarrow> Q p) \<and>
   (\<forall>h host port. e = Connecting h host port \<longrightarrow> Q tr)"
  by (auto simp: prefix_snoc)

lemma handles_ok_snoc:
  "handles_ok (tr @ [e]) c \<longleftrightarrow>
     (\<forall>p. prefix p tr \<longrightarrow> card (live p) \<le> 1) \<and>
     (\<forall>p h host port. prefix (p @ [Connecting h host port]) tr \<longrightarrow> held p = {} \<and> live p = {}) \<and>
     card (live (tr @ [e])) \<le> 1 \<and>
     (\<forall>h host port. e = Connecting h host port \<longrightarrow> held tr = {} \<and> live tr = {}) \<and>
     live (tr @ [e]) \<subseteq> held (tr @ [e]) \<and> held (tr @ [e]) \<subseteq> set_option c"
  unfolding handles_ok_def all_prefixes_snoc all_connects_snoc by (rule iffI; elim conjE; intro conjI; assumption)

lemma subset_option_card: "S \<subseteq> set_option c \<Longrightarrow> card S \<le> 1"
proof -
  assume s: "S \<subseteq> set_option c"
  have "card (set_option c) \<le> 1" by (cases c) simp_all
  moreover have "finite (set_option c)" by (cases c) simp_all
  ultimately show ?thesis using s card_mono [of "set_option c" S] by linarith
qed

lemma handles_ok_snocI:
  assumes "handles_ok tr c0"
    and "track_live (live tr) e \<subseteq> track_held (held tr) e"
    and "track_held (held tr) e \<subseteq> set_option c"
    and "\<And>h host port. e = Connecting h host port \<Longrightarrow> held tr = {} \<and> live tr = {}"
  shows "handles_ok (tr @ [e]) c"
proof -
  from assms(2,3) have "card (track_live (live tr) e) \<le> 1"
    by (intro subset_option_card [of _ c]) auto
  with assms show ?thesis
    unfolding handles_ok_snoc by (simp add: handles_ok_def)
qed

lemma handles_ok_harmless:
  assumes "handles_ok tr c" "harmless e"
  shows "handles_ok (tr @ [e]) c"
proof (rule handles_ok_snocI [OF assms(1)])
  from assms show "track_live (live tr) e \<subseteq> track_held (held tr) e"
    by (simp add: handles_ok_def)
  from assms show "track_held (held tr) e \<subseteq> set_option c"
    by (simp add: handles_ok_def)
  from assms(2) show "held tr = {} \<and> live tr = {}" if "e = Connecting h host port" for h host port
    using that by simp
qed

lemma handles_ok_append:
  "handles_ok tr c \<Longrightarrow> list_all harmless ext \<Longrightarrow> handles_ok (tr @ ext) c"
proof (induction ext arbitrary: tr)
  case Nil
  then show ?case by simp
next
  case (Cons e ext)
  from Cons.prems have "handles_ok (tr @ [e]) c" by (simp add: handles_ok_harmless)
  from Cons.IH [OF this] Cons.prems(2) show ?case by simp
qed

lemma held_append_harmless: "list_all harmless ext \<Longrightarrow> held (tr @ ext) = held tr"
proof (induction ext arbitrary: tr)
  case Nil
  show ?case by simp
next
  case (Cons e ext)
  from Cons.prems have "held ((tr @ [e]) @ ext) = held (tr @ [e])" by (intro Cons.IH) simp
  with Cons.prems show ?case by simp
qed

definition tidy :: "world \<Rightarrow> bool" where
  "tidy w \<longleftrightarrow> handles_ok (trace w) (client w)"

lemma quiet_tidy: "quiet w w' \<Longrightarrow> tidy w \<Longrightarrow> tidy w'"
  by (auto simp: quiet_def tidy_def intro: handles_ok_append)

lemma quiet_held: "quiet w w' \<Longrightarrow> held (trace w') = held (trace w)"
  by (auto simp: quiet_def held_append_harmless)

lemma handles_ok_closed:
  assumes "handles_ok tr (Some h)"
  shows "handles_ok (tr @ [Closed h]) c \<and> held (tr @ [Closed h]) = {}"
proof -
  from assms have h: "held tr \<subseteq> {h}" "live tr \<subseteq> held tr"
    unfolding handles_ok_def by simp_all
  then have d: "held tr - {h} = {}" "live tr - {h} = {}" by auto
  have "handles_ok (tr @ [Closed h]) c"
    by (rule handles_ok_snocI [OF assms]) (simp_all add: d)
  with d show ?thesis by simp
qed

lemma close_step:
  assumes "tidy w" "except_pass (close_rpc w) = (r, w1)"
  shows "tidy w1 \<and> held (trace w1) = {} \<and> server w1 = server w \<and> next_client w1 = next_client w"
proof (cases "client w")
  case None
  with assms(2) have "w1 = w" by (simp add: close_rpc_def except_pass_def)
  moreover from assms(1) None have "held (trace w) = {}"
    by (simp add: tidy_def handles_ok_def)
  ultimately show ?thesis using assms(1) by simp
next
  case (Some h)
  with assms(2) have w1: "w1 = w\<lparr>trace := trace w @ [Closed h]\<rparr>"
    by (auto simp: close_rpc_def except_pass_def split: if_splits)
  from assms(1) Some have "handles_ok (trace w) (Some h)" by (simp add: tidy_def)
  from handles_ok_closed [OF this, of "client w"] w1 show ?thesis
    by (simp add: tidy_def)
qed

lemma connect_rpc_step:
  assumes t: "handles_ok (trace w) c0" and e: "held (trace w) = {}" and c: "client w = Some h"
    and r: "connect_rpc h host port w = (r, w')"
  shows "tidy w'"
proof -
  let ?tr = "trace w @ [Connecting h host port]"
  let ?w1 = "w\<lparr>trace := ?tr\<rparr>"
  from t e have l: "live (trace w) = {}" unfolding handles_ok_def by auto
  have ok1: "handles_ok ?tr (Some h)"
    by (rule handles_ok_snocI [OF t]) (simp_all add: e l)
  have h1: "held ?tr = {h}" "live ?tr = {}" using e l by simp_all
  show ?thesis
  proof (cases "suspend ?w1")
    case None
    with r have "w' = ?w1" by (simp add: connect_rpc_def)
    with ok1 c show ?thesis by (simp add: tidy_def)
  next
    case (Some a)
    obtain b w2 where "a = (b, w2)" by (cases a)
    with Some have s: "suspend ?w1 = Some (b, w2)" by simp
    from suspend_quiet [OF s] suspend_trace [OF s] c
    have w2: "trace w2 = ?tr" "client w2 = Some h" by (simp_all add: quiet_def)
    show ?thesis
    proof (cases b)
      case True
      with r s have "w' = w2" by (simp add: connect_rpc_def)
      with ok1 w2 show ?thesis by (simp add: tidy_def)
    next
      case False
      with r s have w': "w' = w2\<lparr>trace := trace w2 @ [Opened h]\<rparr>" by (simp add: connect_rpc_def)
      have "handles_ok (?tr @ [Opened h]) (Some h)"
        by (rule handles_ok_snocI [OF ok1]) (simp_all only: h1 track_live.simps track_held.simps, simp_all)
      with w' w2 show ?thesis by (simp only: tidy_def) simp
    qed
  qed
qed

lemma connect_step:
  assumes t: "tidy w" and e: "held (trace w) = {}" and r: "connect w = (r, w')"
  shows "tidy w'"
proof (cases "servers w (server w)")
  case None
  with r t show ?thesis by (simp add: connect_def)
next
  case (Some a)
  obtain host control where "a = (host, control)" by (cases a)
  with Some have sv: "servers w (server w) = Some (host, control)" by simp
  let ?h = "next_client w"
  let ?w0 = "w\<lparr>client := Some ?h, next_client := Suc ?h\<rparr>"
  obtain r1 w1 where c1: "connect_rpc ?h host control ?w0 = (r1, w1)"
    by (cases "connect_rpc ?h host control ?w0")
  from t have "handles_ok (trace ?w0) (client w)" by (simp add: tidy_def)
  from connect_rpc_step [OF this _ _ c1] e have t1: "tidy w1" by simp
  show ?thesis
  proof (cases r1)
    case (Returns x)
    with r sv c1 have "setConnected True w1 = (r, w')" by (simp add: connect_def andthen_def)
    from setConnected_quiet [OF this] t1 show ?thesis by (rule quiet_tidy)
  next
    case (Raises x)
    with r sv c1 t1 show ?thesis by (simp add: connect_def andthen_def)
  next
    case Blocks
    with r sv c1 t1 show ?thesis by (simp add: connect_def andthen_def)
  qed
qed

lemma log_error_tidy: "tidy w \<Longrightarrow> tidy (log_error w)"
  by (simp add: tidy_def log_error_def handles_ok_harmless)

lemma outer_cycle_tidy:
  assumes t: "tidy w" and o: "outer_cycle w = (r, w')"
  shows "tidy w'"
proof -
  obtain w1 where c: "except_pass (close_rpc (w\<lparr>wake_loop := False\<rparr>)) = (Returns (), w1)"
    using except_pass_returns [of "w\<lparr>wake_loop := False\<rparr>"]
    by (cases "except_pass (close_rpc (w\<lparr>wake_loop := False\<rparr>))") auto
  from t have "tidy (w\<lparr>wake_loop := False\<rparr>)" by (simp add: tidy_def)
  from close_step [OF this c] have t1: "tidy w1" and h1: "held (trace w1) = {}" by simp_all
  show ?thesis
  proof (cases "server w1 = []")
    case True
    with o c have "wake_wait (w1\<lparr>connected := False\<rparr>) = (r, w')"
      by (simp add: outer_cycle_def andthen_def setConnected_def)
    from wake_wait_quiet [OF this] have "quiet (w1\<lparr>connected := False\<rparr>) w'" .
    moreover from t1 have "tidy (w1\<lparr>connected := False\<rparr>)" by (simp add: tidy_def)
    ultimately show ?thesis by (rule quiet_tidy)
  next
    case False
    obtain r2 w2 where cn: "connect w1 = (r2, w2)" by (cases "connect w1")
    from connect_step [OF t1 h1 cn] have t2: "tidy w2" .
    show ?thesis
    proof (cases r2)
      case (Returns x)
      with o c False cn have "inner_loop w2 = (r, w')"
        by (simp add: outer_cycle_def andthen_def)
      from inner_loop_quiet [OF this] t2 show ?thesis by (rule quiet_tidy)
    next
      case (Raises x)
      with o c False cn have "w' = log_error w2"
        by (simp add: outer_cycle_def andthen_def)
      with t2 show ?thesis by (simp add: log_error_tidy)
    next
      case Blocks
      with o c False cn have "w' = w2"
        by (simp add: outer_cycle_def andthen_def)
      with t2 show ?thesis by simp
    qed
  qed
qed

lemma loop_tidy: "tidy w \<Longrightarrow> tidy (snd (loop n w))"
proof (induction n arbitrary: w)
  case 0
  then show ?case by simp
next
  case (Suc n)
  show ?case
  proof (cases "exit_request w")
    case True
    with Suc.prems show ?thesis by simp
  next
    case False
    obtain r w' where o: "outer_cycle w = (r, w')" by (cases "outer_cycle w")
    from outer_cycle_tidy [OF Suc.prems o] have t: "tidy w'" .
    with Suc.IH [OF t] False o show ?thesis by (cases r) simp_all
  qed
qed

lemma close_rpc_raises:
  "(client v = None \<longrightarrow> close_rpc v = (Raises AttributeError, v)) \<and>
   (strict_close v \<longrightarrow> client v = Some h \<longrightarrow> h \<notin> live (trace v) \<longrightarrow>
      fst (close_rpc v) = Raises AttributeError)"
  by (simp add: close_rpc_def)

text \<open>
  C7. From the start of the loop, at every point of its trace at most one connection
  is open, and every connection attempt starts when \<open>close_rpc\<close> has been called on every
  client used before and no connection is open. \<open>close_rpc\<close> raises when the display has
  no client yet and may raise on a client whose connection is not open; wrapped in
  \<open>try ... except Exception: pass\<close> it always returns, the outer cycle never raises and
  no exception leaves the loop.
\<close>

theorem one_live_handle:
  assumes "trace w = []"
  shows "(\<forall>p. prefix p (trace (snd (loop n w))) \<longrightarrow> card (live p) \<le> 1) \<and>
         (\<forall>p h host port. prefix (p @ [Connecting h host port]) (trace (snd (loop n w))) \<longrightarrow>
            held p = {} \<and> live p = {}) \<and>
         (client v = None \<longrightarrow> close_rpc v = (Raises AttributeError, v)) \<and>
         (strict_close v \<longrightarrow> client v = Some k \<longrightarrow> k \<notin> live (trace v) \<longrightarrow>
            fst (close_rpc v) = Raises AttributeError) \<and>
         fst (except_pass (close_rpc v)) = Returns () \<and>
         fst (outer_cycle v) \<noteq> Raises e \<and>
         fst (loop n w) \<noteq> Escaped e"
proof -
  from assms have "tidy w" by (simp add: tidy_def)
  then have "tidy (snd (loop n w))" by (rule loop_tidy)
  then have "(\<forall>p. prefix p (trace (snd (loop n w))) \<longrightarrow> card (live p) \<le> 1) \<and>
         (\<forall>p h host port. prefix (p @ [Connecting h host port]) (trace (snd (loop n w))) \<longrightarrow>
            held p = {} \<and> live p = {})"
    unfolding tidy_def handles_ok_def by blast
  with close_rpc_raises [of v k] except_pass_returns [of v] outer_cycle_no_raise [of v e]
    loop_no_escape [of n w e]
  show ?thesis by blast
qed

lemma wake_wait_set: "wake_loop w \<Longrightarrow> wake_wait w = (Returns (), w)"
  by (subst wake_wait.simps) simp

lemma wake_wait_unset:
  "\<not> wake_loop w \<Longrightarrow>
     wake_wait w = (case suspend w of None \<Rightarrow> (Blocks, w) | Some (_, w') \<Rightarrow> wake_wait w')"
  by (subst wake_wait.simps) simp

text \<open>
  A session to run the loop on: the display starts with no client; the server is
  connected, the four exposure limits are fetched, the first wait ends with the server
  unassigned, the next with the server assigned again, and the second connection fails.
\<close>

definition unassigned :: suspension where
  "unassigned = \<lparr>events = [Assign_server []], raises = False\<rparr>"

definition assigned :: suspension where
  "assigned = \<lparr>events = [Assign_server ''lab'', Wake], raises = False\<rparr>"

definition session :: world where
  "session = display0\<lparr>client := None, next_client := 0, connected := False,
     script := [returns, returns, returns, returns, returns, unassigned, assigned, fails]\<rparr>"

lemma session_run:
  "loop (Suc (Suc (Suc 0))) session =
     (Running,
      session\<lparr>client := Some 1, next_client := 2, script := [],
        trace := [Connecting 0 ''wlm'' 3251, Opened 0, Call 0 Get_min_exposure,
          Call 0 Get_max_exposure, Call 0 Get_min_exposure, Call 0 Get_max_exposure, Waited (Finite 1),
          Closed 0, Closed 0, Connecting 1 ''wlm'' 3251, Logged ''lab'']\<rparr>)"
  by (simp add: session_def display0_def outer_cycle_def except_pass_def close_rpc_def
      connect_def connect_rpc_def setConnected_def get_min_exposure_def get_max_exposure_def
      set_exposure_value_def spin_set_def update_widgets_def log_error_def live_def
      inner_loop_stop inner_loop_go wake_wait_set wake_wait_unset
      unassigned_def assigned_def cycle_simps run_simps upt_rec)


theorem one_live_handle_witness:
  "trace session = [] \<and>
   fst (loop 3 session) = Running \<and>
   trace (snd (loop 3 session)) =
     [Connecting 0 ''wlm'' 3251, Opened 0, Call 0 Get_min_exposure,
      Call 0 Get_max_exposure, Call 0 Get_min_exposure, Call 0 Get_max_exposure, Waited (Finite 1),
      Closed 0, Closed 0, Connecting 1 ''wlm'' 3251, Logged ''lab''] \<and>
   card (live [Connecting 0 ''wlm'' 3251, Opened 0]) \<le> 1 \<and>
   held [Connecting 0 ''wlm'' 3251, Opened 0, Call 0 Get_min_exposure,
      Call 0 Get_max_exposure, Call 0 Get_min_exposure, Call 0 Get_max_exposure, Waited (Finite 1),
      Closed 0, Closed 0] = {} \<and>
   close_rpc session = (Raises AttributeError, session) \<and>
   fst (except_pass (close_rpc session)) = Returns ()"
proof -
  let ?T = "[Connecting 0 ''wlm'' 3251, Opened 0, Call 0 Get_min_exposure,
      Call 0 Get_max_exposure, Call 0 Get_min_exposure, Call 0 Get_max_exposure, Waited (Finite 1),
      Closed 0, Closed 0, Connecting 1 ''wlm'' 3251, Logged ''lab'']"
  let ?P = "[Connecting 0 ''wlm'' 3251, Opened 0, Call 0 Get_min_exposure,
      Call 0 Get_max_exposure, Call 0 Get_min_exposure, Call 0 Get_max_exposure, Waited (Finite 1),
      Closed 0, Closed 0]"
  have t0: "trace session = []" "client session = None"
    by (simp_all add: session_def display0_def)
  have n: "(3::nat) = Suc (Suc (Suc 0))" by simp
  have r: "fst (loop 3 session) = Running" "trace (snd (loop 3 session)) = ?T"
    unfolding n session_run by simp_all
  note inst = one_live_handle [OF t0(1), of 3 session]
  from inst have a: "\<forall>p. prefix p ?T \<longrightarrow> card (live p) \<le> 1"
    and b: "\<forall>p h host port. prefix (p @ [Connecting h host port]) ?T \<longrightarrow> held p = {} \<and> live p = {}"
    and c: "client session = None \<longrightarrow> close_rpc session = (Raises AttributeError, session)"
    and d: "fst (except_pass (close_rpc session)) = Returns ()"
    unfolding r by blast+
  have "prefix [Connecting 0 ''wlm'' 3251, Opened 0] ?T" by simp
  with a have a': "card (live [Connecting 0 ''wlm'' 3251, Opened 0]) \<le> 1" by blast
  have "prefix (?P @ [Connecting 1 ''wlm'' 3251]) ?T" by simp
  with b have b': "held ?P = {}" by blast
  from c t0 have c': "close_rpc session = (Raises AttributeError, session)" by blast
  from t0 r a' b' c' d show ?thesis by blast
qed


end
